theory Spec2Isabelle
  imports Main
begin

section \<open>The board\<close>

text \<open>
  \<^verbatim>\<open>Game.__init__\<close> builds the board as three lists of three strings, and the only
  change the program ever makes to it is the assignment \<^verbatim>\<open>board[i][j] = v\<close> with
  \<open>i\<close> and \<open>j\<close> taken from \<^verbatim>\<open>range(3)\<close> or computed from a box number that has
  been checked to lie in 1..9. The shape is therefore fixed: a row is a triple and the
  board is a triple of rows. A cell holds the string \<^verbatim>\<open>'X'\<close>, the string \<^verbatim>\<open>'O'\<close>, or
  (while it is free) the decimal text of its own box number.
\<close>

type_synonym 'a triple = "'a \<times> 'a \<times> 'a"

type_synonym board = "string triple triple"

fun nth3 :: "'a triple \<Rightarrow> nat \<Rightarrow> 'a" where
  "nth3 (a, b, c) i = (if i = 0 then a else if i = 1 then b else c)"

fun upd3 :: "'a triple \<Rightarrow> nat \<Rightarrow> 'a \<Rightarrow> 'a triple" where
  "upd3 (a, b, c) i v = (if i = 0 then (v, b, c) else if i = 1 then (a, v, c) else (a, b, v))"

fun list3 :: "'a triple \<Rightarrow> 'a list" where
  "list3 (a, b, c) = [a, b, c]"

text \<open>\<^verbatim>\<open>board[i][j]\<close> and \<^verbatim>\<open>board[i][j] = v\<close>.\<close>

definition cell :: "board \<Rightarrow> nat \<Rightarrow> nat \<Rightarrow> string" where
  "cell b i j = nth3 (nth3 b i) j"

definition set_cell :: "board \<Rightarrow> nat \<Rightarrow> nat \<Rightarrow> string \<Rightarrow> board" where
  "set_cell b i j v = upd3 b i (upd3 (nth3 b i) j v)"

text \<open>\<^verbatim>\<open>for row in board for cell in row\<close>.\<close>

definition cells :: "board \<Rightarrow> string list" where
  "cells b = concat (map list3 (list3 b))"

text \<open>Python's \<^verbatim>\<open>str\<close> on an integer: its decimal digits, with a minus sign if negative.\<close>

definition digit_char :: "nat \<Rightarrow> char" where
  "digit_char d = ''0123456789'' ! d"

fun digits :: "nat \<Rightarrow> string" where
  "digits n = (if n < 10 then [digit_char n] else digits (n div 10) @ [digit_char (n mod 10)])"

declare digits.simps [simp del]

definition str :: "int \<Rightarrow> string" where
  "str n = (if n < 0 then CHR ''-'' # digits (nat (- n)) else digits (nat n))"

section \<open>The game\<close>

record game =
  board :: board
  turn :: int

datatype error = ValueError string | TypeError | EOFError

definition InvalidBox :: error where
  "InvalidBox = ValueError ''Box must be between 1 and 9''"

definition CellOccupied :: error where
  "CellOccupied = ValueError ''Box is already filled''"

definition get_box_number :: "nat \<Rightarrow> nat \<Rightarrow> int" where
  "get_box_number row col = int row * 3 + int col + 1"

definition Game_init :: game where
  "Game_init =
     \<lparr>board = (let r = (\<lambda>i. (str (get_box_number i 0), str (get_box_number i 1), str (get_box_number i 2)))
               in (r 0, r 1, r 2)),
      turn = 0\<rparr>"

definition get_empty_box_positions :: "board \<Rightarrow> (nat \<times> nat) list" where
  "get_empty_box_positions b =
     [(i, j). i \<leftarrow> [0, 1, 2], j \<leftarrow> [0, 1, 2], cell b i j \<notin> set [''X'', ''O'']]"

text \<open>
  The loop of \<^verbatim>\<open>get_winner\<close> over \<^verbatim>\<open>range(3)\<close>: at each \<open>i\<close> the row \<open>i\<close> is tested,
  then the column \<open>i\<close>; the first test that holds returns.
\<close>

fun winner_loop :: "board \<Rightarrow> nat list \<Rightarrow> string option" where
  "winner_loop b [] = None"
| "winner_loop b (i # rest) =
     (if cell b i 0 = cell b i 1 \<and> cell b i 1 = cell b i 2 then Some (cell b i 0)
      else if cell b 0 i = cell b 1 i \<and> cell b 1 i = cell b 2 i then Some (cell b 0 i)
      else winner_loop b rest)"

definition get_winner :: "board \<Rightarrow> string option" where
  "get_winner b =
     (case winner_loop b [0, 1, 2] of
        Some w \<Rightarrow> Some w
      | None \<Rightarrow>
          if cell b 0 0 = cell b 1 1 \<and> cell b 1 1 = cell b 2 2 then Some (cell b 0 0)
          else if cell b 0 2 = cell b 1 1 \<and> cell b 1 1 = cell b 2 0 then Some (cell b 0 2)
          else None)"

text \<open>\<^verbatim>\<open>row, col = (box - 1) // 3, (box - 1) % 3\<close>, used once the box is known to lie in 1..9.\<close>

definition box_row :: "int \<Rightarrow> nat" where
  "box_row box = nat ((box - 1) div 3)"

definition box_col :: "int \<Rightarrow> nat" where
  "box_col box = nat ((box - 1) mod 3)"

text \<open>\<^verbatim>\<open>'X' if self.turn % 2 == 0 else 'O'\<close>.\<close>

definition next_mark :: "game \<Rightarrow> string" where
  "next_mark g = (if turn g mod 2 = 0 then ''X'' else ''O'')"

text \<open>
  \<^verbatim>\<open>Game.move\<close> returns its result together with the game as the call leaves it, also
  when it raises: \<open>Inl\<close> is the exception, \<open>Inr\<close> the returned value (\<^verbatim>\<open>'X'\<close>,
  \<^verbatim>\<open>'O'\<close>, \<^verbatim>\<open>'Tie'\<close> or \<^verbatim>\<open>None\<close>).
\<close>

definition move :: "game \<Rightarrow> int \<Rightarrow> (error + string option) \<times> game" where
  "move g box =
     (if box < 1 \<or> box > 9 then (Inl (ValueError ''Box must be between 1 and 9''), g)
      else
        let row = box_row box; col = box_col box in
        if cell (board g) row col \<in> set [''X'', ''O'']
        then (Inl (ValueError ''Box is already filled''), g)
        else
          let g1 = g\<lparr>board := set_cell (board g) row col (next_mark g)\<rparr>;
              g2 = g1\<lparr>turn := turn g1 + 1\<rparr>;
              winner = get_winner (board g2)
          in if winner \<noteq> None then (Inr winner, g2)
             else if turn g2 = 9 then (Inr (Some ''Tie''), g2)
             else (Inr None, g2))"

text \<open>
  A sequence of \<^verbatim>\<open>Game.move\<close> calls on one game object, each call leaving the game
  for the next one, whether it returned or raised.
\<close>

fun play_moves :: "game \<Rightarrow> int list \<Rightarrow> game" where
  "play_moves g [] = g"
| "play_moves g (box # boxes) = play_moves (snd (move g box)) boxes"

section \<open>Positions, free cells and counting\<close>

definition all_positions :: "(nat \<times> nat) list" where
  "all_positions = [(0, 0), (0, 1), (0, 2), (1, 0), (1, 1), (1, 2), (2, 0), (2, 1), (2, 2)]"

definition is_empty :: "board \<Rightarrow> nat \<times> nat \<Rightarrow> bool" where
  "is_empty b p \<longleftrightarrow> cell b (fst p) (snd p) \<notin> set [''X'', ''O'']"

definition empty_count :: "board \<Rightarrow> nat" where
  "empty_count b = length (get_empty_box_positions b)"

definition count_marked :: "board \<Rightarrow> nat" where
  "count_marked b = length (filter (\<lambda>c. c \<in> set [''X'', ''O'']) (cells b))"

text \<open>
  A board is validly represented when every cell holds \<^verbatim>\<open>'X'\<close>, \<^verbatim>\<open>'O'\<close> or the
  text of its own box number, as every board built by \<^verbatim>\<open>Game.__init__\<close> and changed by
  \<^verbatim>\<open>Game.move\<close> does.
\<close>

definition valid_board :: "board \<Rightarrow> bool" where
  "valid_board b =
     list_all (\<lambda>p. cell b (fst p) (snd p) \<in> set [''X'', ''O'', str (get_box_number (fst p) (snd p))])
       all_positions"

definition valid_game :: "game \<Rightarrow> bool" where
  "valid_game g \<longleftrightarrow> valid_board (board g) \<and> turn g = int (count_marked (board g))"

lemma concat_map_if: "concat (map (\<lambda>j. if P j then [f j] else []) xs) = map f (filter P xs)"
  by (induction xs) auto

lemma filter_Pair: "map (Pair i) (filter (\<lambda>j. P (i, j)) xs) = filter P (map (Pair i) xs)"
  by (induction xs) auto

lemma get_empty_box_positions_filter:
  "get_empty_box_positions b = filter (is_empty b) all_positions"
proof -
  have "get_empty_box_positions b
        = concat (map (\<lambda>i. map (Pair i) (filter (\<lambda>j. is_empty b (i, j)) [0, 1, 2])) [0, 1, 2])"
    unfolding get_empty_box_positions_def is_empty_def fst_conv snd_conv
    by (simp only: concat_map_if)
  also have "\<dots> = concat (map (\<lambda>i. filter (is_empty b) (map (Pair i) [0, 1, 2])) [0, 1, 2])"
    by (simp only: filter_Pair)
  also have "\<dots> = filter (is_empty b) (concat (map (\<lambda>i. map (Pair i) [0, 1, 2]) [0, 1, 2]))"
    by (simp only: filter_concat map_map o_def)
  also have "concat (map (\<lambda>i. map (Pair i) [0, 1, 2]) [0, 1, 2]) = all_positions"
    by (simp add: all_positions_def)
  finally show ?thesis .
qed


lemma lt3: "(i::nat) < 3 \<Longrightarrow> i = 0 \<or> i = 1 \<or> i = 2" by arith

lemma nth3_upd3: "i < 3 \<Longrightarrow> k < 3 \<Longrightarrow> nth3 (upd3 t i v) k = (if k = i then v else nth3 t k)"
  by (cases t) (auto dest!: lt3)

lemma cell_set_cell:
  "i < 3 \<Longrightarrow> j < 3 \<Longrightarrow> k < 3 \<Longrightarrow> l < 3 \<Longrightarrow>
   cell (set_cell b i j v) k l = (if k = i \<and> l = j then v else cell b k l)"
  by (simp add: cell_def set_cell_def nth3_upd3)

lemma all_positions_lt3: "(k, l) \<in> set all_positions \<Longrightarrow> k < 3 \<and> l < 3"
  by (auto simp: all_positions_def)

lemma set_all_positions: "i < 3 \<Longrightarrow> j < 3 \<Longrightarrow> (i, j) \<in> set all_positions"
  using lt3[of i] lt3[of j] by (auto simp: all_positions_def)

lemma distinct_all_positions: "distinct all_positions"
  by (simp add: all_positions_def)

lemma pos_cases: "(i, j) \<in> set (get_empty_box_positions b) \<Longrightarrow> i < 3 \<and> j < 3 \<and> cell b i j \<notin> set [''X'', ''O'']"
  using all_positions_lt3[of i j] by (simp add: get_empty_box_positions_filter is_empty_def)

lemma length_filter_change:
  assumes "distinct xs" "p \<in> set xs" "P p" "\<And>q. q \<in> set xs \<Longrightarrow> q \<noteq> p \<Longrightarrow> Q q = P q"
  shows "length (filter Q xs) = (if Q p then length (filter P xs) else length (filter P xs) - 1) \<and> 0 < length (filter P xs)"
  using assms
proof (induction xs)
  case Nil
  then show ?case by simp
next
  case (Cons x xs)
  show ?case
  proof (cases "x = p")
    case True
    with Cons.prems have "p \<notin> set xs" by simp
    with Cons.prems(4) have "\<And>q. q \<in> set xs \<Longrightarrow> Q q = P q" by auto
    then have "filter Q xs = filter P xs" by (simp cong: filter_cong)
    with True Cons.prems(3) show ?thesis by simp
  next
    case False
    with Cons.prems have "p \<in> set xs" "distinct xs" by auto
    from Cons.IH[OF this(2) this(1) Cons.prems(3)] Cons.prems(4)
    have ih: "length (filter Q xs) = (if Q p then length (filter P xs) else length (filter P xs) - 1) \<and> 0 < length (filter P xs)"
      by simp
    from False Cons.prems(4)[of x] have "Q x = P x" by simp
    with ih show ?thesis by auto
  qed
qed

lemma empty_count_set_cell:
  assumes "i < 3" "j < 3" "cell b i j \<notin> set [''X'', ''O'']"
  shows "empty_count (set_cell b i j v) = (if v \<in> set [''X'', ''O''] then empty_count b - 1 else empty_count b) \<and> 0 < empty_count b"
proof -
  have "length (filter (is_empty (set_cell b i j v)) all_positions)
        = (if is_empty (set_cell b i j v) (i, j) then length (filter (is_empty b) all_positions)
           else length (filter (is_empty b) all_positions) - 1) \<and> 0 < length (filter (is_empty b) all_positions)"
  proof (rule length_filter_change[OF distinct_all_positions set_all_positions[OF assms(1,2)]])
    show "is_empty b (i, j)" using assms(3) by (simp add: is_empty_def)
  next
    fix q assume q: "q \<in> set all_positions" "q \<noteq> (i, j)"
    obtain k l where kl: "q = (k, l)" by (cases q) auto
    with q all_positions_lt3[of k l] have "k < 3" "l < 3" "\<not> (k = i \<and> l = j)" by auto
    then have "cell (set_cell b i j v) k l = cell b k l"
      using assms(1,2) by (auto simp: cell_set_cell)
    then show "is_empty (set_cell b i j v) q = is_empty b q"
      by (simp add: kl is_empty_def)
  qed
  moreover have "is_empty (set_cell b i j v) (i, j) \<longleftrightarrow> v \<notin> set [''X'', ''O'']"
    using assms(1,2) by (simp add: is_empty_def cell_set_cell del: set_simps)
  ultimately show ?thesis
    by (simp add: empty_count_def get_empty_box_positions_filter del: set_simps)
qed

lemma cells_map: "cells b = map (\<lambda>p. cell b (fst p) (snd p)) all_positions"
proof -
  obtain r0 r1 r2 where b: "b = (r0, r1, r2)" by (cases b) auto
  obtain a0 a1 a2 where r0: "r0 = (a0, a1, a2)" by (cases r0) auto
  obtain b0 b1 b2 where r1: "r1 = (b0, b1, b2)" by (cases r1) auto
  obtain c0 c1 c2 where r2: "r2 = (c0, c1, c2)" by (cases r2) auto
  show ?thesis
    by (simp add: b r0 r1 r2 cells_def all_positions_def cell_def)
qed

lemma count_marked_filter: "count_marked b = length (filter (\<lambda>p. \<not> is_empty b p) all_positions)"
  by (simp add: count_marked_def cells_map is_empty_def filter_map o_def del: set_simps)

lemma count_marked_empty_count: "count_marked b + empty_count b = 9"
proof -
  have "length (filter (\<lambda>p. \<not> is_empty b p) all_positions) + length (filter (is_empty b) all_positions)
        = length all_positions"
    using sum_length_filter_compl[of "is_empty b" all_positions] by simp
  then show ?thesis
    by (simp add: count_marked_filter empty_count_def get_empty_box_positions_filter all_positions_def)
qed

lemma count_marked_set_cell:
  assumes "i < 3" "j < 3" "cell b i j \<notin> set [''X'', ''O'']" "v \<in> set [''X'', ''O'']"
  shows "count_marked (set_cell b i j v) = count_marked b + 1"
  using empty_count_set_cell[OF assms(1-3), of v] assms(4)
    count_marked_empty_count[of b] count_marked_empty_count[of "set_cell b i j v"]
  by (simp del: set_simps)

lemma valid_board_iff:
  "valid_board b \<longleftrightarrow>
     (\<forall>i < 3. \<forall>j < 3. cell b i j \<in> set [''X'', ''O'', str (get_box_number i j)])"
proof
  assume v: "valid_board b"
  show "\<forall>i < 3. \<forall>j < 3. cell b i j \<in> set [''X'', ''O'', str (get_box_number i j)]"
  proof (intro allI impI)
    fix i j :: nat assume "i < 3" "j < 3"
    from set_all_positions[OF this] v show "cell b i j \<in> set [''X'', ''O'', str (get_box_number i j)]"
      unfolding valid_board_def list_all_iff by fastforce
  qed
next
  assume a: "\<forall>i < 3. \<forall>j < 3. cell b i j \<in> set [''X'', ''O'', str (get_box_number i j)]"
  show "valid_board b"
    unfolding valid_board_def list_all_iff
  proof
    fix p assume "p \<in> set all_positions"
    with all_positions_lt3[of "fst p" "snd p"] a
    show "cell b (fst p) (snd p) \<in> set [''X'', ''O'', str (get_box_number (fst p) (snd p))]"
      by simp
  qed
qed

lemma valid_board_set_cell:
  assumes "valid_board b" "i < 3" "j < 3" "v \<in> set [''X'', ''O'']"
  shows "valid_board (set_cell b i j v)"
  unfolding valid_board_iff
proof (intro allI impI)
  fix k l :: nat assume kl: "k < 3" "l < 3"
  from assms(1) kl have "cell b k l \<in> set [''X'', ''O'', str (get_box_number k l)]"
    by (simp add: valid_board_iff del: set_simps)
  with assms(4) show "cell (set_cell b i j v) k l \<in> set [''X'', ''O'', str (get_box_number k l)]"
    by (auto simp: cell_set_cell[OF assms(2,3) kl])
qed

lemma box_row_col:
  assumes "1 \<le> box" "box \<le> 9"
  shows "box_row box < 3" "box_col box < 3" "get_box_number (box_row box) (box_col box) = box"
  using assms by (auto simp: box_row_def box_col_def get_box_number_def)

lemma box_of_position:
  assumes "i < 3" "j < 3"
  shows "1 \<le> get_box_number i j" "get_box_number i j \<le> 9"
    "box_row (get_box_number i j) = i" "box_col (get_box_number i j) = j"
  using assms by (auto simp: box_row_def box_col_def get_box_number_def)

section \<open>Lines\<close>

text \<open>
  The eight lines of the board in the order in which \<^verbatim>\<open>get_winner\<close> and
  \<^verbatim>\<open>_evaluate\<close> test them: row 0, column 0, row 1, column 1, row 2, column 2, the
  main diagonal, the anti-diagonal. A line is complete when its three cells hold the
  same mark and that mark is \<^verbatim>\<open>'X'\<close> or \<^verbatim>\<open>'O'\<close>.
\<close>

type_synonym line = "(nat \<times> nat) \<times> (nat \<times> nat) \<times> (nat \<times> nat)"

definition scan_lines :: "line list" where
  "scan_lines =
     [((0, 0), (0, 1), (0, 2)), ((0, 0), (1, 0), (2, 0)),
      ((1, 0), (1, 1), (1, 2)), ((0, 1), (1, 1), (2, 1)),
      ((2, 0), (2, 1), (2, 2)), ((0, 2), (1, 2), (2, 2)),
      ((0, 0), (1, 1), (2, 2)), ((0, 2), (1, 1), (2, 0))]"

definition line_mark :: "board \<Rightarrow> line \<Rightarrow> string" where
  "line_mark b l = cell b (fst (fst l)) (snd (fst l))"

fun complete_line :: "board \<Rightarrow> line \<Rightarrow> bool" where
  "complete_line b (p, q, r) \<longleftrightarrow>
     cell b (fst p) (snd p) \<in> set [''X'', ''O''] \<and>
     cell b (fst p) (snd p) = cell b (fst q) (snd q) \<and>
     cell b (fst q) (snd q) = cell b (fst r) (snd r)"

definition first_complete_line :: "board \<Rightarrow> line option" where
  "first_complete_line b = find (complete_line b) scan_lines"

lemma nat_facts: "((0::nat) = 0) = True" "((1::nat) = 0) = False" "((1::nat) = 1) = True"
  "((2::nat) = 0) = False" "((2::nat) = 1) = False"
  by simp_all

lemma case_if: "(case (if c then x else y) of None \<Rightarrow> n | Some v \<Rightarrow> s v)
   = (if c then (case x of None \<Rightarrow> n | Some v \<Rightarrow> s v) else (case y of None \<Rightarrow> n | Some v \<Rightarrow> s v))"
  by simp

lemma str_box:
  "str (get_box_number 0 0) = ''1''" "str (get_box_number 0 1) = ''2''" "str (get_box_number 0 2) = ''3''"
  "str (get_box_number 1 0) = ''4''" "str (get_box_number 1 1) = ''5''" "str (get_box_number 1 2) = ''6''"
  "str (get_box_number 2 0) = ''7''" "str (get_box_number 2 1) = ''8''" "str (get_box_number 2 2) = ''9''"
  by (simp_all add: str_def get_box_number_def digits.simps digit_char_def)

lemma Game_init_board:
  "board Game_init = ((''1'', ''2'', ''3''), (''4'', ''5'', ''6''), (''7'', ''8'', ''9''))"
  by (simp only: Game_init_def Let_def str_box game.select_convs)

lemma get_winner_tuple:
  "get_winner ((a, b, c), (d, e, f), (g, h, k)) =
     (if a = b \<and> b = c then Some a
      else if a = d \<and> d = g then Some a
      else if d = e \<and> e = f then Some d
      else if b = e \<and> e = h then Some b
      else if g = h \<and> h = k then Some g
      else if c = f \<and> f = k then Some c
      else if a = e \<and> e = k then Some a
      else if c = e \<and> e = g then Some c
      else None)"
  by (simp only: get_winner_def winner_loop.simps cell_def nth3.simps nat_facts
        if_True if_False option.case case_if)

lemma first_complete_line_tuple:
  "map_option (line_mark ((a, b, c), (d, e, f), (g, h, k))) (first_complete_line ((a, b, c), (d, e, f), (g, h, k))) =
     (if a \<in> set [''X'', ''O''] \<and> a = b \<and> b = c then Some a
      else if a \<in> set [''X'', ''O''] \<and> a = d \<and> d = g then Some a
      else if d \<in> set [''X'', ''O''] \<and> d = e \<and> e = f then Some d
      else if b \<in> set [''X'', ''O''] \<and> b = e \<and> e = h then Some b
      else if g \<in> set [''X'', ''O''] \<and> g = h \<and> h = k then Some g
      else if c \<in> set [''X'', ''O''] \<and> c = f \<and> f = k then Some c
      else if a \<in> set [''X'', ''O''] \<and> a = e \<and> e = k then Some a
      else if c \<in> set [''X'', ''O''] \<and> c = e \<and> e = g then Some c
      else None)"
  by (simp only: first_complete_line_def scan_lines_def find.simps complete_line.simps line_mark_def
        cell_def nth3.simps nat_facts fst_conv snd_conv if_True if_False option.map if_distrib[of "map_option _"])

lemma valid_board_tuple:
  "valid_board ((a, b, c), (d, e, f), (g, h, k)) \<longleftrightarrow>
     a \<in> set [''X'', ''O'', ''1''] \<and> b \<in> set [''X'', ''O'', ''2''] \<and> c \<in> set [''X'', ''O'', ''3''] \<and>
     d \<in> set [''X'', ''O'', ''4''] \<and> e \<in> set [''X'', ''O'', ''5''] \<and> f \<in> set [''X'', ''O'', ''6''] \<and>
     g \<in> set [''X'', ''O'', ''7''] \<and> h \<in> set [''X'', ''O'', ''8''] \<and> k \<in> set [''X'', ''O'', ''9'']"
  by (simp only: valid_board_def all_positions_def list.pred_inject cell_def nth3.simps nat_facts
        fst_conv snd_conv if_True if_False str_box simp_thms)

lemma line_eq:
  assumes "a \<in> set [''X'', ''O'', la]" "b \<in> set [''X'', ''O'', lb]" "c \<in> set [''X'', ''O'', lc]"
    and "la \<notin> set [''X'', ''O'', lb, lc]" "lb \<notin> set [''X'', ''O'', la, lc]" "lc \<notin> set [''X'', ''O'', la, lb]"
  shows "(a \<in> set [''X'', ''O''] \<and> a = b \<and> b = c) = (a = b \<and> b = c)"
  using assms by auto


lemma get_winner_first_complete_line:
  assumes "valid_board b"
  shows "get_winner b = map_option (line_mark b) (first_complete_line b)"
proof -
  obtain r0 r1 r2 where b: "b = (r0, r1, r2)" by (cases b) auto
  obtain a0 a1 a2 where r0: "r0 = (a0, a1, a2)" by (cases r0) auto
  obtain b0 b1 b2 where r1: "r1 = (b0, b1, b2)" by (cases r1) auto
  obtain c0 c1 c2 where r2: "r2 = (c0, c1, c2)" by (cases r2) auto
  from assms have v:
    "a0 \<in> set [''X'', ''O'', ''1'']" "a1 \<in> set [''X'', ''O'', ''2'']" "a2 \<in> set [''X'', ''O'', ''3'']"
    "b0 \<in> set [''X'', ''O'', ''4'']" "b1 \<in> set [''X'', ''O'', ''5'']" "b2 \<in> set [''X'', ''O'', ''6'']"
    "c0 \<in> set [''X'', ''O'', ''7'']" "c1 \<in> set [''X'', ''O'', ''8'']" "c2 \<in> set [''X'', ''O'', ''9'']"
    unfolding b r0 r1 r2 valid_board_tuple by blast+
  have l:
    "(a0 \<in> set [''X'', ''O''] \<and> a0 = a1 \<and> a1 = a2) = (a0 = a1 \<and> a1 = a2)"
    "(a0 \<in> set [''X'', ''O''] \<and> a0 = b0 \<and> b0 = c0) = (a0 = b0 \<and> b0 = c0)"
    "(b0 \<in> set [''X'', ''O''] \<and> b0 = b1 \<and> b1 = b2) = (b0 = b1 \<and> b1 = b2)"
    "(a1 \<in> set [''X'', ''O''] \<and> a1 = b1 \<and> b1 = c1) = (a1 = b1 \<and> b1 = c1)"
    "(c0 \<in> set [''X'', ''O''] \<and> c0 = c1 \<and> c1 = c2) = (c0 = c1 \<and> c1 = c2)"
    "(a2 \<in> set [''X'', ''O''] \<and> a2 = b2 \<and> b2 = c2) = (a2 = b2 \<and> b2 = c2)"
    "(a0 \<in> set [''X'', ''O''] \<and> a0 = b1 \<and> b1 = c2) = (a0 = b1 \<and> b1 = c2)"
    "(a2 \<in> set [''X'', ''O''] \<and> a2 = b1 \<and> b1 = c0) = (a2 = b1 \<and> b1 = c0)"
    subgoal by (rule line_eq[OF v(1) v(2) v(3)]) simp_all
    subgoal by (rule line_eq[OF v(1) v(4) v(7)]) simp_all
    subgoal by (rule line_eq[OF v(4) v(5) v(6)]) simp_all
    subgoal by (rule line_eq[OF v(2) v(5) v(8)]) simp_all
    subgoal by (rule line_eq[OF v(7) v(8) v(9)]) simp_all
    subgoal by (rule line_eq[OF v(3) v(6) v(9)]) simp_all
    subgoal by (rule line_eq[OF v(1) v(5) v(9)]) simp_all
    subgoal by (rule line_eq[OF v(3) v(5) v(7)]) simp_all
    done
  show ?thesis
    unfolding b r0 r1 r2 get_winner_tuple first_complete_line_tuple l ..
qed

section \<open>Game.move\<close>

text \<open>
  The two pieces of a successful \<^verbatim>\<open>Game.move\<close>: the game after the write and the
  increment, and the value returned from it.
\<close>

lemma Inv_neq_Occ: "InvalidBox \<noteq> CellOccupied"
  by (simp add: InvalidBox_def CellOccupied_def)

lemma move_invalid: "box < 1 \<or> box > 9 \<Longrightarrow> move g box = (Inl InvalidBox, g)"
  by (simp add: move_def InvalidBox_def)

lemma move_occupied:
  "1 \<le> box \<Longrightarrow> box \<le> 9 \<Longrightarrow> cell (board g) (box_row box) (box_col box) \<in> set [''X'', ''O'']
   \<Longrightarrow> move g box = (Inl CellOccupied, g)"
  by (simp add: move_def CellOccupied_def Let_def del: set_simps)

definition outcome :: "game \<Rightarrow> string option" where
  "outcome g = (if get_winner (board g) \<noteq> None then get_winner (board g)
                else if turn g = 9 then Some ''Tie'' else None)"

definition after_move :: "game \<Rightarrow> int \<Rightarrow> game" where
  "after_move g box = \<lparr>board = set_cell (board g) (box_row box) (box_col box) (next_mark g), turn = turn g + 1\<rparr>"

lemma move_free:
  "1 \<le> box \<Longrightarrow> box \<le> 9 \<Longrightarrow> cell (board g) (box_row box) (box_col box) \<notin> set [''X'', ''O'']
   \<Longrightarrow> move g box = (Inr (outcome (after_move g box)), after_move g box)"
  by (simp add: move_def Let_def outcome_def after_move_def del: set_simps)

lemma move_cases:
  obtains (invalid) "box < 1 \<or> box > 9" "move g box = (Inl InvalidBox, g)"
  | (occupied) "1 \<le> box" "box \<le> 9" "cell (board g) (box_row box) (box_col box) \<in> set [''X'', ''O'']"
      "move g box = (Inl CellOccupied, g)"
  | (free) "1 \<le> box" "box \<le> 9" "cell (board g) (box_row box) (box_col box) \<notin> set [''X'', ''O'']"
      "move g box = (Inr (outcome (after_move g box)), after_move g box)"
proof (cases "box < 1 \<or> box > 9")
  case True
  then show ?thesis using invalid move_invalid by blast
next
  case range: False
  show ?thesis
  proof (cases "cell (board g) (box_row box) (box_col box) \<in> set [''X'', ''O'']")
    case True
    with range show ?thesis using occupied move_occupied[of box g] by simp
  next
    case False
    with range show ?thesis using free move_free[of box g] by simp
  qed
qed

lemma next_mark_in: "next_mark g \<in> set [''X'', ''O'']"
  by (simp add: next_mark_def)

lemma valid_game_after_move:
  assumes "valid_game g" "1 \<le> box" "box \<le> 9" "cell (board g) (box_row box) (box_col box) \<notin> set [''X'', ''O'']"
  shows "valid_game (after_move g box)"
proof -
  note rc = box_row_col(1,2)[OF assms(2,3)]
  have "valid_board (set_cell (board g) (box_row box) (box_col box) (next_mark g))"
    using assms(1) rc next_mark_in by (simp add: valid_board_set_cell valid_game_def del: set_simps)
  moreover have "count_marked (set_cell (board g) (box_row box) (box_col box) (next_mark g))
        = count_marked (board g) + 1"
    by (rule count_marked_set_cell[OF rc assms(4) next_mark_in])
  ultimately show ?thesis
    using assms(1) by (simp add: valid_game_def after_move_def)
qed

lemma valid_game_move: "valid_game g \<Longrightarrow> valid_game (snd (move g box))"
  by (cases rule: move_cases[of box g]) (simp_all add: valid_game_after_move del: set_simps)

lemma valid_game_init: "valid_game Game_init"
  by (simp add: valid_game_def Game_init_board valid_board_tuple count_marked_def cells_def)
     (simp add: Game_init_def)

lemma valid_game_play_moves: "valid_game g \<Longrightarrow> valid_game (play_moves g boxes)"
  by (induction boxes arbitrary: g) (simp_all add: valid_game_move)

lemma length_filter_all: "length (filter P xs) = length xs \<longleftrightarrow> list_all P xs"
proof (induction xs)
  case Nil
  then show ?case by simp
next
  case (Cons x xs)
  have "length (filter P xs) \<noteq> Suc (length xs)"
    using length_filter_le[of P xs] by linarith
  with Cons show ?case by auto
qed

lemma length_cells: "length (cells b) = 9"
  by (simp add: cells_map all_positions_def)

lemma count_marked_9: "count_marked b = 9 \<longleftrightarrow> list_all (\<lambda>c. c \<in> set [''X'', ''O'']) (cells b)"
  using length_filter_all[of "\<lambda>c. c \<in> set [''X'', ''O'']" "cells b"]
  by (simp add: count_marked_def length_cells del: set_simps)

section \<open>Claims about the game\<close>

text \<open>
  C4. For every game and every integer box, \<^verbatim>\<open>Game.move\<close> raises the invalid-box
  error exactly when the box is below 1 or above 9, raises the cell-occupied error
  exactly when the box lies in 1..9 and its cell already holds \<^verbatim>\<open>'X'\<close> or
  \<^verbatim>\<open>'O'\<close>, and returns a value in every other case.
\<close>

theorem move_error_conditions:
  "(fst (move g box) = Inl InvalidBox \<longleftrightarrow> box < 1 \<or> box > 9) \<and>
   (fst (move g box) = Inl CellOccupied \<longleftrightarrow>
      1 \<le> box \<and> box \<le> 9 \<and> cell (board g) (box_row box) (box_col box) \<in> set [''X'', ''O'']) \<and>
   ((\<exists>out. fst (move g box) = Inr out) \<longleftrightarrow>
      1 \<le> box \<and> box \<le> 9 \<and> cell (board g) (box_row box) (box_col box) \<notin> set [''X'', ''O''])"
proof (cases rule: move_cases[of box g])
  case invalid
  then show ?thesis using Inv_neq_Occ by auto
next
  case occupied
  then show ?thesis using Inv_neq_Occ by (auto simp del: set_simps)
next
  case free
  then show ?thesis by (auto simp del: set_simps)
qed

theorem move_error_conditions_witness:
  "fst (move Game_init 0) = Inl InvalidBox \<and> fst (move Game_init 10) = Inl InvalidBox \<and>
   fst (move (snd (move Game_init 5)) 5) = Inl CellOccupied \<and>
   (\<exists>out. fst (move (snd (move Game_init 5)) 1) = Inr out)"
proof -
  have g5: "board (snd (move Game_init 5)) = ((''1'', ''2'', ''3''), (''4'', ''X'', ''6''), (''7'', ''8'', ''9''))"
    by (simp add: move_def Let_def Game_init_board box_row_def box_col_def cell_def set_cell_def next_mark_def)
       (simp add: Game_init_def)
  have "cell (board (snd (move Game_init 5))) (box_row 5) (box_col 5) \<in> set [''X'', ''O'']"
    "cell (board (snd (move Game_init 5))) (box_row 1) (box_col 1) \<notin> set [''X'', ''O'']"
    by (simp_all add: g5 box_row_def box_col_def cell_def)
  then show ?thesis
    using move_error_conditions[of Game_init 0] move_error_conditions[of Game_init 10]
      move_error_conditions[of "snd (move Game_init 5)" 5]
      move_error_conditions[of "snd (move Game_init 5)" 1]
    by (simp del: set_simps)
qed

text \<open>
  C10. A call of \<^verbatim>\<open>Game.move\<close> that raises leaves the game as it was: the board and
  the turn counter after the call are those before it.
\<close>

theorem move_failure_atomic:
  assumes "fst (move g box) = Inl e"
  shows "snd (move g box) = g"
proof (cases rule: move_cases[of box g])
  case invalid
  then show ?thesis by simp
next
  case occupied
  then show ?thesis by simp
next
  case free
  with assms show ?thesis by simp
qed

theorem move_failure_atomic_witness:
  "fst (move Game_init 0) = Inl InvalidBox \<and> snd (move Game_init 0) = Game_init \<and>
   fst (move (snd (move Game_init 5)) 5) = Inl CellOccupied \<and>
   snd (move (snd (move Game_init 5)) 5) = snd (move Game_init 5)"
proof -
  have a: "fst (move Game_init 0) = Inl InvalidBox"
    by (simp add: move_def InvalidBox_def)
  have "cell (board (snd (move Game_init 5))) (box_row 5) (box_col 5) \<in> set [''X'', ''O'']"
    by (simp add: move_def Let_def Game_init_board box_row_def box_col_def cell_def set_cell_def next_mark_def)
  then have b: "fst (move (snd (move Game_init 5)) 5) = Inl CellOccupied"
    by (simp add: move_occupied del: set_simps)
  from a b move_failure_atomic[OF a] move_failure_atomic[OF b] show ?thesis by simp
qed

lemma find_None_list_ex: "(find P xs \<noteq> None) = list_ex P xs"
  by (induction xs) auto

text \<open>
  C3. On every validly represented board (every board a game can reach is one, see
  \<open>valid_game_play_moves\<close>), \<^verbatim>\<open>get_winner\<close> returns a symbol exactly when some row,
  column or diagonal holds three equal marks \<^verbatim>\<open>'X'\<close> or \<^verbatim>\<open>'O'\<close>, and \<^verbatim>\<open>None\<close>
  otherwise; the symbol it returns is the mark of the first complete line in the scan
  order row 0, column 0, row 1, column 1, row 2, column 2, main diagonal, anti-diagonal.
\<close>

theorem get_winner_first_line:
  assumes "valid_board b"
  shows "get_winner b = map_option (line_mark b) (first_complete_line b) \<and>
         (get_winner b \<noteq> None \<longleftrightarrow> list_ex (complete_line b) scan_lines) \<and>
         (get_winner b = None \<or> get_winner b = Some ''X'' \<or> get_winner b = Some ''O'')"
proof -
  have eq: "get_winner b = map_option (line_mark b) (first_complete_line b)"
    by (rule get_winner_first_complete_line[OF assms])
  have ex: "get_winner b \<noteq> None \<longleftrightarrow> list_ex (complete_line b) scan_lines"
  proof -
    have "first_complete_line b \<noteq> None \<longleftrightarrow> list_ex (complete_line b) scan_lines"
      by (simp only: first_complete_line_def find_None_list_ex)
    moreover have "get_winner b \<noteq> None \<longleftrightarrow> first_complete_line b \<noteq> None"
      by (cases "first_complete_line b") (simp_all add: eq)
    ultimately show ?thesis by blast
  qed
  have sym: "get_winner b = None \<or> get_winner b = Some ''X'' \<or> get_winner b = Some ''O''"
  proof (cases "first_complete_line b")
    case None
    then show ?thesis by (simp add: eq)
  next
    case (Some l)
    then have "complete_line b l"
      unfolding first_complete_line_def by (auto simp: find_Some_iff)
    then have "line_mark b l \<in> set [''X'', ''O'']"
      by (cases l rule: prod_cases3) (auto simp: line_mark_def)
    with Some show ?thesis by (auto simp: eq)
  qed
  from eq ex sym show ?thesis by blast
qed

theorem get_winner_first_line_witness:
  "valid_board ((''X'', ''X'', ''X''), (''O'', ''O'', ''O''), (''7'', ''8'', ''9'')) \<and>
   first_complete_line ((''X'', ''X'', ''X''), (''O'', ''O'', ''O''), (''7'', ''8'', ''9''))
     = Some ((0, 0), (0, 1), (0, 2)) \<and>
   complete_line ((''X'', ''X'', ''X''), (''O'', ''O'', ''O''), (''7'', ''8'', ''9'')) ((1, 0), (1, 1), (1, 2)) \<and>
   get_winner ((''X'', ''X'', ''X''), (''O'', ''O'', ''O''), (''7'', ''8'', ''9'')) = Some ''X'' \<and>
   valid_board ((''O'', ''X'', ''3''), (''O'', ''X'', ''6''), (''O'', ''X'', ''9'')) \<and>
   get_winner ((''O'', ''X'', ''3''), (''O'', ''X'', ''6''), (''O'', ''X'', ''9'')) = Some ''O''"
proof -
  let ?B = "((''X'', ''X'', ''X''), (''O'', ''O'', ''O''), (''7'', ''8'', ''9''))"
  let ?C = "((''O'', ''X'', ''3''), (''O'', ''X'', ''6''), (''O'', ''X'', ''9''))"
  have v: "valid_board ?B" "valid_board ?C" by (simp_all add: valid_board_tuple)
  have f: "first_complete_line ?B = Some ((0, 0), (0, 1), (0, 2))"
    "first_complete_line ?C = Some ((0, 0), (1, 0), (2, 0))"
    by (simp_all add: first_complete_line_def scan_lines_def cell_def)
  have c: "complete_line ?B ((1, 0), (1, 1), (1, 2))" by (simp add: cell_def)
  from get_winner_first_line[OF v(1)] get_winner_first_line[OF v(2)] v f c show ?thesis
    by (simp add: line_mark_def cell_def)
qed

lemma outcome_valid:
  assumes "valid_game g"
  shows "outcome g = (case first_complete_line (board g) of
                        Some l \<Rightarrow> Some (line_mark (board g) l)
                      | None \<Rightarrow> if list_all (\<lambda>c. c \<in> set [''X'', ''O'']) (cells (board g))
                                then Some ''Tie'' else None)"
proof -
  from assms have v: "valid_board (board g)" and t: "turn g = int (count_marked (board g))"
    by (simp_all add: valid_game_def)
  have "(turn g = 9) = list_all (\<lambda>c. c \<in> set [''X'', ''O'']) (cells (board g))"
    using count_marked_9[of "board g"] t by (simp del: set_simps)
  then show ?thesis
    unfolding outcome_def get_winner_first_complete_line[OF v]
    by (cases "first_complete_line (board g)") (simp_all del: set_simps)
qed

text \<open>
  C5. A successful \<^verbatim>\<open>Game.move\<close> writes \<^verbatim>\<open>'X'\<close> into the cell of the box when the
  turn counter is even and \<^verbatim>\<open>'O'\<close> when it is odd, and adds one to the turn counter.
  In a game whose board is validly represented and whose turn counter equals its number
  of marked cells (every game reached from a new one, see \<open>valid_game_play_moves\<close>), it
  returns the mark of the first complete line of the new board if there is one,
  \<^verbatim>\<open>'Tie'\<close> if there is none and all nine cells are marked, and \<^verbatim>\<open>None\<close> otherwise.
\<close>

theorem move_success:
  assumes "fst (move g box) = Inr out"
  shows "board (snd (move g box))
           = set_cell (board g) (box_row box) (box_col box) (if turn g mod 2 = 0 then ''X'' else ''O'') \<and>
         cell (board (snd (move g box))) (box_row box) (box_col box)
           = (if turn g mod 2 = 0 then ''X'' else ''O'') \<and>
         turn (snd (move g box)) = turn g + 1 \<and>
         (valid_game g \<longrightarrow>
            out = (case first_complete_line (board (snd (move g box))) of
                     Some l \<Rightarrow> Some (line_mark (board (snd (move g box))) l)
                   | None \<Rightarrow> if list_all (\<lambda>c. c \<in> set [''X'', ''O'']) (cells (board (snd (move g box))))
                             then Some ''Tie'' else None))"
proof (cases rule: move_cases[of box g])
  case invalid
  with assms show ?thesis by simp
next
  case occupied
  with assms show ?thesis by simp
next
  case free
  note rc = box_row_col(1,2)[OF free(1,2)]
  from free(4) assms have out: "out = outcome (after_move g box)" by simp
  have w: "cell (set_cell (board g) (box_row box) (box_col box) (next_mark g)) (box_row box) (box_col box)
          = next_mark g"
    by (simp add: cell_set_cell[OF rc rc])
  have "out = (case first_complete_line (board (after_move g box)) of
                 Some l \<Rightarrow> Some (line_mark (board (after_move g box)) l)
               | None \<Rightarrow> if list_all (\<lambda>c. c \<in> set [''X'', ''O'']) (cells (board (after_move g box)))
                         then Some ''Tie'' else None)"
    if "valid_game g"
    unfolding out by (rule outcome_valid[OF valid_game_after_move[OF that free(1,2,3)]])
  with w show ?thesis
    unfolding free(4) snd_conv by (simp add: after_move_def next_mark_def del: set_simps)
qed

lemmas move_eval = move_def Let_def box_row_def box_col_def cell_def set_cell_def next_mark_def
  get_winner_tuple

theorem move_success_witness:
  "valid_game \<lparr>board = ((''X'', ''O'', ''X''), (''O'', ''X'', ''O''), (''O'', ''X'', ''9'')), turn = 8\<rparr> \<and>
   move \<lparr>board = ((''X'', ''O'', ''X''), (''O'', ''X'', ''O''), (''O'', ''X'', ''9'')), turn = 8\<rparr> 9
     = (Inr (Some ''X''),
        \<lparr>board = ((''X'', ''O'', ''X''), (''O'', ''X'', ''O''), (''O'', ''X'', ''X'')), turn = 9\<rparr>) \<and>
   valid_game \<lparr>board = ((''X'', ''O'', ''X''), (''X'', ''O'', ''O''), (''O'', ''X'', ''9'')), turn = 8\<rparr> \<and>
   move \<lparr>board = ((''X'', ''O'', ''X''), (''X'', ''O'', ''O''), (''O'', ''X'', ''9'')), turn = 8\<rparr> 9
     = (Inr (Some ''Tie''),
        \<lparr>board = ((''X'', ''O'', ''X''), (''X'', ''O'', ''O''), (''O'', ''X'', ''X'')), turn = 9\<rparr>) \<and>
   valid_game \<lparr>board = ((''X'', ''2'', ''3''), (''4'', ''5'', ''6''), (''7'', ''8'', ''9'')), turn = 1\<rparr> \<and>
   move \<lparr>board = ((''X'', ''2'', ''3''), (''4'', ''5'', ''6''), (''7'', ''8'', ''9'')), turn = 1\<rparr> 5
     = (Inr None,
        \<lparr>board = ((''X'', ''2'', ''3''), (''4'', ''O'', ''6''), (''7'', ''8'', ''9'')), turn = 2\<rparr>)"
proof -
  let ?W = "\<lparr>board = ((''X'', ''O'', ''X''), (''O'', ''X'', ''O''), (''O'', ''X'', ''9'')), turn = 8\<rparr>"
  let ?T = "\<lparr>board = ((''X'', ''O'', ''X''), (''X'', ''O'', ''O''), (''O'', ''X'', ''9'')), turn = 8\<rparr>"
  let ?N = "\<lparr>board = ((''X'', ''2'', ''3''), (''4'', ''5'', ''6''), (''7'', ''8'', ''9'')), turn = 1\<rparr>"
  have v: "valid_game ?W" "valid_game ?T" "valid_game ?N"
    by (simp_all add: valid_game_def valid_board_tuple count_marked_def cells_def)
  have r: "fst (move ?W 9) = Inr (Some ''X'')" "fst (move ?T 9) = Inr (Some ''Tie'')"
    "fst (move ?N 5) = Inr None"
    by (simp_all add: move_eval)
  have s: "set_cell (board ?W) (box_row 9) (box_col 9) ''X''
             = ((''X'', ''O'', ''X''), (''O'', ''X'', ''O''), (''O'', ''X'', ''X''))"
    "set_cell (board ?T) (box_row 9) (box_col 9) ''X''
             = ((''X'', ''O'', ''X''), (''X'', ''O'', ''O''), (''O'', ''X'', ''X''))"
    "set_cell (board ?N) (box_row 5) (box_col 5) ''O''
             = ((''X'', ''2'', ''3''), (''4'', ''O'', ''6''), (''7'', ''8'', ''9''))"
    by (simp_all add: box_row_def box_col_def set_cell_def)
  from move_success[OF r(1)] v(1) s(1)
  have w: "snd (move ?W 9) = \<lparr>board = ((''X'', ''O'', ''X''), (''O'', ''X'', ''O''), (''O'', ''X'', ''X'')), turn = 9\<rparr>"
    by (cases "snd (move ?W 9)") simp
  from move_success[OF r(2)] v(2) s(2)
  have t: "snd (move ?T 9) = \<lparr>board = ((''X'', ''O'', ''X''), (''X'', ''O'', ''O''), (''O'', ''X'', ''X'')), turn = 9\<rparr>"
    by (cases "snd (move ?T 9)") simp
  from move_success[OF r(3)] v(3) s(3)
  have n: "snd (move ?N 5) = \<lparr>board = ((''X'', ''2'', ''3''), (''4'', ''O'', ''6''), (''7'', ''8'', ''9'')), turn = 2\<rparr>"
    by (cases "snd (move ?N 5)") simp
  from v r w t n show ?thesis
    by (simp only: prod_eq_iff fst_conv snd_conv simp_thms)
qed

text \<open>
  C6. After any sequence of \<^verbatim>\<open>Game.move\<close> calls on a new game, returning or raising,
  the number of cells holding \<^verbatim>\<open>'X'\<close> or \<^verbatim>\<open>'O'\<close> equals the turn counter; the counter
  is 0 in a new game, and a call adds one to it when it returns and leaves it alone when
  it raises.
\<close>

theorem turn_counts_marks:
  "int (count_marked (board (play_moves Game_init boxes))) = turn (play_moves Game_init boxes) \<and>
   turn Game_init = 0 \<and>
   (\<forall>g box. turn (snd (move g box)) = (case fst (move g box) of Inl e \<Rightarrow> turn g | Inr out \<Rightarrow> turn g + 1))"
proof -
  have "valid_game (play_moves Game_init boxes)"
    by (rule valid_game_play_moves[OF valid_game_init])
  then have "int (count_marked (board (play_moves Game_init boxes))) = turn (play_moves Game_init boxes)"
    by (simp add: valid_game_def)
  moreover have "turn Game_init = 0" by (simp add: Game_init_def)
  moreover have "turn (snd (move g box)) = (case fst (move g box) of Inl e \<Rightarrow> turn g | Inr out \<Rightarrow> turn g + 1)"
    for g box
    by (cases rule: move_cases[of box g]) (simp_all add: after_move_def)
  ultimately show ?thesis by blast
qed

theorem turn_counts_marks_witness:
  "turn (play_moves Game_init [5, 5, 0, 1]) = 2 \<and>
   count_marked (board (play_moves Game_init [5, 5, 0, 1])) = 2 \<and>
   board (play_moves Game_init [5, 5, 0, 1])
     = ((''O'', ''2'', ''3''), (''4'', ''X'', ''6''), (''7'', ''8'', ''9''))"
proof -
  have i: "Game_init = \<lparr>board = ((''1'', ''2'', ''3''), (''4'', ''5'', ''6''), (''7'', ''8'', ''9'')), turn = 0\<rparr>"
    using Game_init_board by (cases Game_init) (simp add: Game_init_def)
  have p: "play_moves Game_init [5, 5, 0, 1]
           = \<lparr>board = ((''O'', ''2'', ''3''), (''4'', ''X'', ''6''), (''7'', ''8'', ''9'')), turn = 2\<rparr>"
    unfolding i by (simp add: move_eval)
  from turn_counts_marks[of "[5, 5, 0, 1]"] show ?thesis
    unfolding p by simp
qed

section \<open>The minimax bot\<close>

text \<open>\<^verbatim>\<open>Bot.__init__\<close>: the bot's symbol.\<close>

definition Bot_symbol :: "bool \<Rightarrow> string" where
  "Bot_symbol goes_first = (if goes_first then ''X'' else ''O'')"

text \<open>\<^verbatim>\<open>'X' if symbol == 'O' else 'O'\<close>.\<close>

definition opponent :: "string \<Rightarrow> string" where
  "opponent symbol = (if symbol = ''O'' then ''X'' else ''O'')"

text \<open>
  \<^verbatim>\<open>_evaluate\<close>, with \<open>self\<close> for \<^verbatim>\<open>self.symbol\<close>: the lines are tested in the order of
  \<^verbatim>\<open>get_winner\<close>, and the first line whose three cells are equal decides the score.
  \<open>None\<close> is Python's \<^verbatim>\<open>None\<close>: the position is not terminal.
\<close>

fun evaluate_loop :: "string \<Rightarrow> board \<Rightarrow> nat list \<Rightarrow> int option" where
  "evaluate_loop self b [] = None"
| "evaluate_loop self b (i # rest) =
     (if cell b i 0 = cell b i 1 \<and> cell b i 1 = cell b i 2 then Some (if cell b i 0 = self then 10 else - 10)
      else if cell b 0 i = cell b 1 i \<and> cell b 1 i = cell b 2 i then Some (if cell b 0 i = self then 10 else - 10)
      else evaluate_loop self b rest)"

definition evaluate :: "string \<Rightarrow> board \<Rightarrow> int option" where
  "evaluate self b =
     (case evaluate_loop self b [0, 1, 2] of
        Some score \<Rightarrow> Some score
      | None \<Rightarrow>
          if cell b 0 0 = cell b 1 1 \<and> cell b 1 1 = cell b 2 2 then Some (if cell b 0 0 = self then 10 else - 10)
          else if cell b 0 2 = cell b 1 1 \<and> cell b 1 1 = cell b 2 0 then Some (if cell b 0 2 = self then 10 else - 10)
          else if list_all (\<lambda>c. c \<in> set [''X'', ''O'']) (cells b) then Some 0 else None)"

text \<open>
  \<^verbatim>\<open>max(scores)\<close> and \<^verbatim>\<open>min(scores)\<close>. Python raises ValueError on an empty list; the
  list is never empty where \<^verbatim>\<open>_minimax\<close> calls them, because a board that
  \<^verbatim>\<open>_evaluate\<close> does not score has a free cell (lemma \<open>evaluate_None_empty\<close> below).
\<close>

fun max_of :: "int list \<Rightarrow> int" where
  "max_of (x # xs) = fold max xs x"

fun min_of :: "int list \<Rightarrow> int" where
  "min_of (x # xs) = fold min xs x"

text \<open>
  \<^verbatim>\<open>_minimax\<close> on board values. The source writes the symbol into the cell, recurses,
  and writes the cell's label back; on a validly represented board the label is what the
  cell held, so each child is searched on the parent's board with one cell changed. The
  section on the store below models the writes as the source makes them and proves that
  they amount to this function (\<open>minimax_h_refines\<close>).
\<close>

function minimax :: "string \<Rightarrow> board \<Rightarrow> string \<Rightarrow> int" where
  "minimax self b symbol =
     (case evaluate self b of
        Some score \<Rightarrow> score
      | None \<Rightarrow>
          let scores = map (\<lambda>(i, j). minimax self (set_cell b i j symbol) (opponent symbol))
                           (get_empty_box_positions b)
          in if symbol = self then max_of scores else min_of scores)"
  by pat_completeness auto
termination
proof (relation "measure (\<lambda>(self, b, symbol). 2 * empty_count b + (if symbol \<in> set [''X'', ''O''] then 0 else 1))")
  show "wf (measure (\<lambda>(self, b, symbol). 2 * empty_count b + (if symbol \<in> set [''X'', ''O''] then 0 else 1)))"
    by simp
next
  fix self :: string and b :: board and symbol :: string and p :: "nat \<times> nat" and i j :: nat
  assume "p \<in> set (get_empty_box_positions b)" and "(i, j) = p"
  then have "(i, j) \<in> set (get_empty_box_positions b)" by simp
  from pos_cases[OF this] have c: "i < 3" "j < 3" "cell b i j \<notin> set [''X'', ''O'']" by auto
  from empty_count_set_cell[OF c, of symbol]
  show "((self, set_cell b i j symbol, opponent symbol), self, b, symbol)
        \<in> measure (\<lambda>(self, b, symbol). 2 * empty_count b + (if symbol \<in> set [''X'', ''O''] then 0 else 1))"
    by (simp add: opponent_def)
qed

declare minimax.simps [simp del]

text \<open>
  \<^verbatim>\<open>MinimaxBot.move\<close> on board values: like \<open>minimax\<close>, it is what the source computes
  on validly represented boards (\<open>MinimaxBot_move_h_refines\<close> below), where writing the
  label back restores the cell. The dictionary \<^verbatim>\<open>scores\<close> is filled in the order of the
  free cells and read back in insertion order, so it is an association list; its keys,
  the box numbers of distinct cells, are distinct. \<^verbatim>\<open>max_score\<close> starts at minus
  infinity, written \<open>None\<close>: every score is above it.
\<close>

definition child_score :: "string \<Rightarrow> board \<Rightarrow> nat \<Rightarrow> nat \<Rightarrow> int" where
  "child_score self b i j = minimax self (set_cell b i j self) (opponent self)"

definition move_scores :: "string \<Rightarrow> board \<Rightarrow> (int \<times> int) list" where
  "move_scores self b =
     map (\<lambda>(i, j). (get_box_number i j, child_score self b i j)) (get_empty_box_positions b)"

fun best_loop :: "(int \<times> int) list \<Rightarrow> int option \<times> int option \<Rightarrow> int option \<times> int option" where
  "best_loop [] (box, max_score) = (box, max_score)"
| "best_loop ((key, value) # rest) (box, max_score) =
     (if (case max_score of None \<Rightarrow> True | Some m \<Rightarrow> value > m)
      then best_loop rest (Some key, Some value)
      else best_loop rest (box, max_score))"

definition MinimaxBot_move :: "string \<Rightarrow> board \<Rightarrow> int option" where
  "MinimaxBot_move self b = fst (best_loop (move_scores self b) (None, None))"

section \<open>Playing a game\<close>

lemma move_Inr_turn: "move g box = (Inr out, g') \<Longrightarrow> turn g' = turn g + 1"
  by (cases rule: move_cases[of box g]) (auto simp: after_move_def)

lemma move_Inr_empty_count: "move g box = (Inr out, g') \<Longrightarrow> empty_count (board g') < empty_count (board g)"
proof (cases rule: move_cases[of box g])
  case free
  assume "move g box = (Inr out, g')"
  with free(4) have g': "g' = after_move g box" by simp
  from empty_count_set_cell[OF box_row_col(1,2)[OF free(1,2)] free(3), of "next_mark g"] next_mark_in[of g]
  show ?thesis by (simp add: g' after_move_def del: set_simps)
qed auto

text \<open>
  \<^verbatim>\<open>game_loop\<close> when the answer to its first question chooses the minimax bot. What
  the human types at the prompt is a list: \<open>Some box\<close> for text that \<^verbatim>\<open>int\<close>
  accepts, \<open>None\<close> for text it rejects (the loop asks again), and the end of the list
  is the end of the input. An exception raised by \<^verbatim>\<open>Game.move\<close> is
  not caught by the loop. The loop ends by returning the outcome and the player who
  moved last, the two values its final message is made of.
\<close>

function game_loop :: "game \<Rightarrow> bool \<Rightarrow> int option list \<Rightarrow> error + string \<times> string" where
  "game_loop g human_goes_first inputs =
     (if turn g mod 2 = (if human_goes_first then 0 else 1) then
        (case inputs of
           [] \<Rightarrow> Inl EOFError
         | None # rest \<Rightarrow> game_loop g human_goes_first rest
         | Some box # rest \<Rightarrow>
             (case move g box of
                (Inl e, g') \<Rightarrow> Inl e
              | (Inr None, g') \<Rightarrow> game_loop g' human_goes_first rest
              | (Inr (Some winner), g') \<Rightarrow> Inr (winner, ''You'')))
      else
        (case MinimaxBot_move (Bot_symbol (\<not> human_goes_first)) (board g) of
           None \<Rightarrow> Inl TypeError
         | Some box \<Rightarrow>
             (case move g box of
                (Inl e, g') \<Rightarrow> Inl e
              | (Inr None, g') \<Rightarrow> game_loop g' human_goes_first inputs
              | (Inr (Some winner), g') \<Rightarrow> Inr (winner, ''Bot''))))"
  by pat_completeness auto
termination
proof (relation "measure (\<lambda>(g, human_goes_first, inputs).
          2 * length inputs + (if turn g mod 2 = (if human_goes_first then 0 else 1) then 0 else 1))",
       goal_cases)
  case 1
  then show ?case by simp
next
  case (2 g human_goes_first inputs a list)
  then show ?case by simp
next
  case (3 g human_goes_first inputs a list box res g' out)
  then show ?case by simp
next
  case (4 g human_goes_first inputs box res g' out)
  from 4 have "move g box = (Inr out, g')" by simp
  from move_Inr_turn[OF this] 4(1) show ?case by (auto simp: mod_add_left_eq) presburger+
qed

text \<open>
  The minimax bot against itself: at every turn the bot that owns the mark to be placed
  (the one created with \<^verbatim>\<open>goes_first\<close> at even turns, the other at odd turns) chooses
  the box, and \<^verbatim>\<open>Game.move\<close> applies it, until \<^verbatim>\<open>Game.move\<close> returns an outcome.
\<close>

function self_play :: "game \<Rightarrow> error + string" where
  "self_play g =
     (case MinimaxBot_move (Bot_symbol (turn g mod 2 = 0)) (board g) of
        None \<Rightarrow> Inl TypeError
      | Some box \<Rightarrow>
          (case move g box of
             (Inl e, g') \<Rightarrow> Inl e
           | (Inr None, g') \<Rightarrow> self_play g'
           | (Inr (Some winner), g') \<Rightarrow> Inr winner))"
  by pat_completeness auto
termination
proof (relation "measure (\<lambda>g. empty_count (board g))", goal_cases)
  case 1
  then show ?case by simp
next
  case (2 g box res g' out)
  then have "move g box = (Inr out, g')" by simp
  from move_Inr_empty_count[OF this] show ?case by simp
qed

section \<open>Facts about the search\<close>

declare game_loop.simps [simp del]
declare self_play.simps [simp del]

lemma fold_max_ge: "((v::int) \<le> fold max xs a) = (v \<le> a \<or> (\<exists>x \<in> set xs. v \<le> x))"
  by (induction xs arbitrary: a) (auto simp: le_max_iff_disj)

lemma fold_min_ge: "((v::int) \<le> fold min xs a) = (v \<le> a \<and> (\<forall>x \<in> set xs. v \<le> x))"
  by (induction xs arbitrary: a) auto

lemma max_of_ge: "xs \<noteq> [] \<Longrightarrow> (v \<le> max_of xs) = (\<exists>x \<in> set xs. v \<le> x)"
  by (cases xs) (auto simp: fold_max_ge)

lemma min_of_ge: "xs \<noteq> [] \<Longrightarrow> (v \<le> min_of xs) = (\<forall>x \<in> set xs. v \<le> x)"
  by (cases xs) (auto simp: fold_min_ge)

lemma list_all_cells: "list_all P (cells b) = list_all (\<lambda>p. P (cell b (fst p) (snd p))) all_positions"
  by (cases b rule: prod_cases3; cases "fst b" rule: prod_cases3; cases "fst (snd b)" rule: prod_cases3;
      cases "snd (snd b)" rule: prod_cases3)
     (simp add: cells_def all_positions_def cell_def)

lemma evaluate_None_empty: "evaluate self b = None \<Longrightarrow> get_empty_box_positions b \<noteq> []"
proof -
  assume "evaluate self b = None"
  then have "\<not> list_all (\<lambda>c. c \<in> set [''X'', ''O'']) (cells b)"
    by (auto simp: evaluate_def split: option.splits if_splits)
  then have "\<exists>p \<in> set all_positions. is_empty b p"
    unfolding list_all_cells by (simp add: is_empty_def list_all_iff del: set_simps)
  then show ?thesis
    by (auto simp: get_empty_box_positions_filter filter_empty_conv)
qed


lemma evaluate_tuple:
  "evaluate self ((a, b, c), (d, e, f), (g, h, k)) =
     (if a = b \<and> b = c then Some (if a = self then 10 else - 10)
      else if a = d \<and> d = g then Some (if a = self then 10 else - 10)
      else if d = e \<and> e = f then Some (if d = self then 10 else - 10)
      else if b = e \<and> e = h then Some (if b = self then 10 else - 10)
      else if g = h \<and> h = k then Some (if g = self then 10 else - 10)
      else if c = f \<and> f = k then Some (if c = self then 10 else - 10)
      else if a = e \<and> e = k then Some (if a = self then 10 else - 10)
      else if c = e \<and> e = g then Some (if c = self then 10 else - 10)
      else if list_all (\<lambda>c. c \<in> set [''X'', ''O'']) [a, b, c, d, e, f, g, h, k] then Some 0 else None)"
  by (simp only: evaluate_def evaluate_loop.simps cell_def nth3.simps cells_def list3.simps nat_facts
        if_True if_False list.map concat.simps append.simps option.case case_if)

lemma cells_tuple: "cells ((a, b, c), (d, e, f), (g, h, k)) = [a, b, c, d, e, f, g, h, k]"
  by (simp add: cells_def)

lemma evaluate_get_winner:
  "evaluate self b =
     (case get_winner b of
        Some w \<Rightarrow> Some (if w = self then 10 else - 10)
      | None \<Rightarrow> if list_all (\<lambda>c. c \<in> set [''X'', ''O'']) (cells b) then Some 0 else None)"
proof -
  obtain r0 r1 r2 where b: "b = (r0, r1, r2)" by (cases b) auto
  obtain a0 a1 a2 where r0: "r0 = (a0, a1, a2)" by (cases r0) auto
  obtain b0 b1 b2 where r1: "r1 = (b0, b1, b2)" by (cases r1) auto
  obtain c0 c1 c2 where r2: "r2 = (c0, c1, c2)" by (cases r2) auto
  show ?thesis
    unfolding b r0 r1 r2
    by (simp only: evaluate_tuple get_winner_tuple cells_tuple case_if option.case)
qed

lemma evaluate_range: "evaluate self b = Some v \<Longrightarrow> v \<in> {- 10, 0, 10}"
  by (auto simp: evaluate_get_winner split: option.splits if_splits)

lemma fold_max_in: "fold max xs (a::int) \<in> insert a (set xs)"
  by (induction xs arbitrary: a) (auto simp: max_def)

lemma fold_min_in: "fold min xs (a::int) \<in> insert a (set xs)"
  by (induction xs arbitrary: a) (auto simp: min_def)

lemma max_of_in: "xs \<noteq> [] \<Longrightarrow> max_of xs \<in> set xs"
  using fold_max_in by (cases xs) auto

lemma min_of_in: "xs \<noteq> [] \<Longrightarrow> min_of xs \<in> set xs"
  using fold_min_in by (cases xs) auto

lemma minimax_range: "minimax self b symbol \<in> {- 10, 0, 10}"
proof (induction self b symbol rule: minimax.induct)
  case (1 self b symbol)
  show ?case
  proof (cases "evaluate self b")
    case None
    let ?scores = "map (\<lambda>(i, j). minimax self (set_cell b i j symbol) (opponent symbol))
                     (get_empty_box_positions b)"
    from evaluate_None_empty[OF None] have ne: "?scores \<noteq> []" by simp
    have "set ?scores \<subseteq> {- 10, 0, 10}"
      using "1.IH"[OF None] by (auto simp del: insert_iff) 
    with max_of_in[OF ne] min_of_in[OF ne]
    have "max_of ?scores \<in> {- 10, 0, 10}" "min_of ?scores \<in> {- 10, 0, 10}" by blast+
    then show ?thesis
      unfolding minimax.simps[of self b symbol] None
      by (cases "symbol = self") (simp_all add: Let_def del: insert_iff)
  next
    case (Some v)
    with evaluate_range[OF Some] show ?thesis
      unfolding minimax.simps[of self b symbol] by simp
  qed
qed

lemma best_loop_sorted:
  assumes "sorted_wrt (<) (k0 # map fst kvs)"
  shows "\<exists>k v. best_loop kvs (Some k0, Some v0) = (Some k, Some v) \<and> (k, v) \<in> set ((k0, v0) # kvs) \<and>
           (\<forall>(k', v') \<in> set ((k0, v0) # kvs). v' \<le> v \<and> (v' = v \<longrightarrow> k \<le> k'))"
  using assms
proof (induction kvs arbitrary: k0 v0)
  case Nil
  then show ?case by simp
next
  case (Cons kv kvs)
  obtain key val where kv: "kv = (key, val)" by (cases kv) auto
  from Cons.prems have lt: "k0 < key" and s1: "sorted_wrt (<) (key # map fst kvs)"
    and s0: "sorted_wrt (<) (k0 # map fst kvs)"
    by (auto simp: kv)
  show ?case
  proof (cases "val > v0")
    case True
    from Cons.IH[OF s1, of val] obtain k v where
      r: "best_loop kvs (Some key, Some val) = (Some k, Some v)" "(k, v) \<in> set ((key, val) # kvs)"
        "\<forall>(k', v') \<in> set ((key, val) # kvs). v' \<le> v \<and> (v' = v \<longrightarrow> k \<le> k')"
      by blast
    from r(3) have "val \<le> v" by simp
    with True have "v0 < v" by simp
    with r True show ?thesis by (auto simp: kv)
  next
    case False
    from Cons.IH[OF s0, of v0] obtain k v where
      r: "best_loop kvs (Some k0, Some v0) = (Some k, Some v)" "(k, v) \<in> set ((k0, v0) # kvs)"
        "\<forall>(k', v') \<in> set ((k0, v0) # kvs). v' \<le> v \<and> (v' = v \<longrightarrow> k \<le> k')"
      by blast
    from r(3) have "v0 \<le> v" "v0 = v \<longrightarrow> k \<le> k0" by simp_all
    with False lt have "val \<le> v" "val = v \<longrightarrow> k \<le> key" by auto
    with r False show ?thesis by (auto simp: kv)
  qed
qed

lemma best_loop_first_max:
  assumes "kvs \<noteq> []" "sorted_wrt (<) (map fst kvs)"
  shows "\<exists>k v. best_loop kvs (None, None) = (Some k, Some v) \<and> (k, v) \<in> set kvs \<and>
           (\<forall>(k', v') \<in> set kvs. v' \<le> v \<and> (v' = v \<longrightarrow> k \<le> k'))"
proof -
  from assms(1) obtain key val rest where kvs: "kvs = (key, val) # rest" by (cases kvs) auto
  from assms(2) have "sorted_wrt (<) (key # map fst rest)" by (simp add: kvs)
  from best_loop_sorted[OF this, of val] show ?thesis by (simp add: kvs)
qed

lemma box_numbers_sorted: "sorted_wrt (<) (map fst (move_scores self b))"
proof -
  have "map fst (move_scores self b) = map (\<lambda>(i, j). get_box_number i j) (filter (is_empty b) all_positions)"
    by (simp add: move_scores_def get_empty_box_positions_filter split_beta o_def)
  moreover have "sorted_wrt (<) (map (\<lambda>(i, j). get_box_number i j) all_positions)"
    by (simp add: all_positions_def get_box_number_def)
  then have "sorted_wrt (<) (map (\<lambda>(i, j). get_box_number i j) (filter (is_empty b) all_positions))"
    by (simp add: sorted_wrt_map sorted_wrt_filter)
  ultimately show ?thesis by simp
qed

lemma MinimaxBot_move_spec:
  assumes "get_empty_box_positions b \<noteq> []"
  shows "\<exists>i j. (i, j) \<in> set (get_empty_box_positions b) \<and>
           MinimaxBot_move self b = Some (get_box_number i j) \<and>
           (\<forall>(k, l) \<in> set (get_empty_box_positions b).
              child_score self b k l \<le> child_score self b i j \<and>
              (child_score self b k l = child_score self b i j \<longrightarrow> get_box_number i j \<le> get_box_number k l))"
proof -
  from assms have ne: "move_scores self b \<noteq> []" by (simp add: move_scores_def)
  from best_loop_first_max[OF ne box_numbers_sorted] obtain k v where
    r: "best_loop (move_scores self b) (None, None) = (Some k, Some v)" "(k, v) \<in> set (move_scores self b)"
      "\<forall>(k', v') \<in> set (move_scores self b). v' \<le> v \<and> (v' = v \<longrightarrow> k \<le> k')"
    by blast
  from r(2) obtain i j where ij: "(i, j) \<in> set (get_empty_box_positions b)"
    "k = get_box_number i j" "v = child_score self b i j"
    by (auto simp: move_scores_def)
  have "child_score self b k' l' \<le> child_score self b i j \<and>
        (child_score self b k' l' = child_score self b i j \<longrightarrow> get_box_number i j \<le> get_box_number k' l')"
    if "(k', l') \<in> set (get_empty_box_positions b)" for k' l'
  proof -
    from that have "(get_box_number k' l', child_score self b k' l') \<in> set (move_scores self b)"
      by (force simp: move_scores_def)
    with r(3) show ?thesis unfolding ij by blast
  qed
  with ij r(1) show ?thesis
    by (auto simp: MinimaxBot_move_def)
qed

section \<open>Bounds on the minimax score\<close>

text \<open>
  \<open>safe\<close>: the score is at least 0, the bot does not lose from here. \<open>capped\<close>: the
  score is at most 0, the bot cannot force a win from here.
\<close>

definition safe :: "string \<Rightarrow> board \<Rightarrow> string \<Rightarrow> bool" where
  "safe self b symbol \<longleftrightarrow> 0 \<le> minimax self b symbol"

definition safe_any :: "string \<Rightarrow> board \<Rightarrow> string \<Rightarrow> (nat \<times> nat) list \<Rightarrow> bool" where
  "safe_any self b symbol ps = (\<exists>p \<in> set ps. safe self (set_cell b (fst p) (snd p) symbol) (opponent symbol))"

definition safe_all :: "string \<Rightarrow> board \<Rightarrow> string \<Rightarrow> (nat \<times> nat) list \<Rightarrow> bool" where
  "safe_all self b symbol ps = (\<forall>p \<in> set ps. safe self (set_cell b (fst p) (snd p) symbol) (opponent symbol))"

lemma safe_unfold: "safe self b symbol = (case evaluate self b of Some sc \<Rightarrow> 0 \<le> sc
   | None \<Rightarrow> if symbol = self then safe_any self b symbol (get_empty_box_positions b) else safe_all self b symbol (get_empty_box_positions b))"
proof (cases "evaluate self b")
  case None
  from evaluate_None_empty[OF None] show ?thesis
    unfolding safe_def[of self b symbol] minimax.simps[of self b symbol]
    by (simp add: None max_of_ge min_of_ge safe_any_def safe_all_def safe_def split_beta)
next
  case (Some a)
  then show ?thesis unfolding safe_def[of self b symbol] minimax.simps[of self b symbol] by simp
qed

lemma safe_any_Nil: "safe_any self b symbol [] = False" by (simp add: safe_any_def)
lemma safe_any_Cons: "safe_any self b symbol ((i, j) # ps) = (if safe self (set_cell b i j symbol) (opponent symbol) then True else safe_any self b symbol ps)"
  by (simp add: safe_any_def)
lemma safe_all_Nil: "safe_all self b symbol [] = True" by (simp add: safe_all_def)
lemma safe_all_Cons: "safe_all self b symbol ((i, j) # ps) = (if safe self (set_cell b i j symbol) (opponent symbol) then safe_all self b symbol ps else False)"
  by (simp add: safe_all_def)


lemma fold_max_le: "(fold max xs a \<le> (v::int)) = (a \<le> v \<and> (\<forall>x \<in> set xs. x \<le> v))"
  by (induction xs arbitrary: a) auto

lemma fold_min_le: "(fold min xs a \<le> (v::int)) = (a \<le> v \<or> (\<exists>x \<in> set xs. x \<le> v))"
  by (induction xs arbitrary: a) (auto simp: min_le_iff_disj)

lemma max_of_le: "xs \<noteq> [] \<Longrightarrow> (max_of xs \<le> v) = (\<forall>x \<in> set xs. x \<le> v)"
  by (cases xs) (auto simp: fold_max_le)

lemma min_of_le: "xs \<noteq> [] \<Longrightarrow> (min_of xs \<le> v) = (\<exists>x \<in> set xs. x \<le> v)"
  by (cases xs) (auto simp: fold_min_le)

definition capped :: "string \<Rightarrow> board \<Rightarrow> string \<Rightarrow> bool" where
  "capped self b symbol \<longleftrightarrow> minimax self b symbol \<le> 0"

definition capped_any :: "string \<Rightarrow> board \<Rightarrow> string \<Rightarrow> (nat \<times> nat) list \<Rightarrow> bool" where
  "capped_any self b symbol ps = (\<exists>p \<in> set ps. capped self (set_cell b (fst p) (snd p) symbol) (opponent symbol))"

definition capped_all :: "string \<Rightarrow> board \<Rightarrow> string \<Rightarrow> (nat \<times> nat) list \<Rightarrow> bool" where
  "capped_all self b symbol ps = (\<forall>p \<in> set ps. capped self (set_cell b (fst p) (snd p) symbol) (opponent symbol))"

lemma capped_unfold: "capped self b symbol = (case evaluate self b of Some sc \<Rightarrow> sc \<le> 0
   | None \<Rightarrow> if symbol = self then capped_all self b symbol (get_empty_box_positions b) else capped_any self b symbol (get_empty_box_positions b))"
proof (cases "evaluate self b")
  case None
  from evaluate_None_empty[OF None] show ?thesis
    unfolding capped_def[of self b symbol] minimax.simps[of self b symbol]
    by (simp add: None max_of_le min_of_le capped_any_def capped_all_def capped_def split_beta)
next
  case (Some a)
  then show ?thesis unfolding capped_def[of self b symbol] minimax.simps[of self b symbol] by simp
qed

lemma capped_any_Nil: "capped_any self b symbol [] = False" by (simp add: capped_any_def)
lemma capped_any_Cons: "capped_any self b symbol ((i, j) # ps) = (if capped self (set_cell b i j symbol) (opponent symbol) then True else capped_any self b symbol ps)"
  by (simp add: capped_any_def)
lemma capped_all_Nil: "capped_all self b symbol [] = True" by (simp add: capped_all_def)
lemma capped_all_Cons: "capped_all self b symbol ((i, j) # ps) = (if capped self (set_cell b i j symbol) (opponent symbol) then capped_all self b symbol ps else False)"
  by (simp add: capped_all_def)

section \<open>The bot never loses\<close>

definition in_progress :: "game \<Rightarrow> bool" where
  "in_progress g \<longleftrightarrow> valid_game g \<and> get_winner (board g) = None \<and> turn g < 9"

lemma opponent_simps: "opponent ''X'' = ''O''" "opponent ''O'' = ''X''"
  by (simp_all add: opponent_def)

lemma next_mark_after_move: "next_mark (after_move g box) = opponent (next_mark g)"
proof -
  have "((turn g + 1) mod 2 = 0) = (turn g mod 2 \<noteq> 0)" by presburger
  then show ?thesis by (simp add: next_mark_def after_move_def opponent_def)
qed

lemma position_is_empty:
  assumes "i < 3" "j < 3" "cell b i j \<notin> set [''X'', ''O'']"
  shows "(i, j) \<in> set (get_empty_box_positions b)"
  using set_all_positions[OF assms(1,2)] assms(3)
  by (simp add: get_empty_box_positions_filter is_empty_def del: set_simps)

lemma in_progress_evaluate:
  assumes "in_progress g"
  shows "evaluate self (board g) = None"
proof -
  from assms have "count_marked (board g) \<noteq> 9" by (simp add: in_progress_def valid_game_def)
  then have "\<not> list_all (\<lambda>c. c \<in> set [''X'', ''O'']) (cells (board g))"
    by (simp add: count_marked_9 del: set_simps)
  with assms show ?thesis
    by (simp add: evaluate_get_winner in_progress_def del: set_simps)
qed

lemma in_progress_init: "in_progress Game_init"
  by (simp add: in_progress_def valid_game_init Game_init_board get_winner_tuple)
     (simp add: Game_init_def)

lemma safe_winner:
  assumes "safe self b symbol" "get_winner b = Some w"
  shows "w = self"
proof (rule ccontr)
  assume "w \<noteq> self"
  with assms(2) have "evaluate self b = Some (- 10)" by (simp add: evaluate_get_winner)
  with assms(1) show False by (simp add: safe_unfold)
qed

lemma bot_choice:
  assumes "evaluate self b = None" "safe self b self"
  shows "\<exists>i j. (i, j) \<in> set (get_empty_box_positions b) \<and>
           MinimaxBot_move self b = Some (get_box_number i j) \<and>
           safe self (set_cell b i j self) (opponent self)"
proof -
  from MinimaxBot_move_spec[OF evaluate_None_empty[OF assms(1)], of self] obtain i j where
    ij: "(i, j) \<in> set (get_empty_box_positions b)" "MinimaxBot_move self b = Some (get_box_number i j)"
      "\<forall>(k, l) \<in> set (get_empty_box_positions b). child_score self b k l \<le> child_score self b i j"
    by blast
  from assms obtain p where p: "p \<in> set (get_empty_box_positions b)"
      "safe self (set_cell b (fst p) (snd p) self) (opponent self)"
    by (auto simp: safe_unfold[of self b self] safe_any_def)
  from p(2) have "0 \<le> child_score self b (fst p) (snd p)" by (simp add: safe_def child_score_def)
  moreover from ij(3) p(1) have "child_score self b (fst p) (snd p) \<le> child_score self b i j"
    by (cases p) auto
  ultimately have "safe self (set_cell b i j self) (opponent self)"
    by (simp add: safe_def child_score_def)
  with ij show ?thesis by blast
qed

lemma opponent_choice:
  assumes "evaluate self b = None" "safe self b symbol" "symbol \<noteq> self"
    "(i, j) \<in> set (get_empty_box_positions b)"
  shows "safe self (set_cell b i j symbol) (opponent symbol)"
  using assms by (auto simp: safe_unfold[of self b symbol] safe_all_def)

text \<open>One successful move from a game in progress.\<close>

lemma move_in_progress:
  assumes "in_progress g" "move g box = (Inr out, g')"
  shows "g' = after_move g box" "out = outcome g'" "valid_game g'"
    "(box_row box, box_col box) \<in> set (get_empty_box_positions (board g))"
    "board g' = set_cell (board g) (box_row box) (box_col box) (next_mark g)"
    "next_mark g' = opponent (next_mark g)"
    "out = None \<Longrightarrow> in_progress g'"
    "out = Some w \<Longrightarrow> w \<noteq> ''Tie'' \<Longrightarrow> get_winner (board g') = Some w"
proof -
  from assms(2) have free: "1 \<le> box" "box \<le> 9"
    "cell (board g) (box_row box) (box_col box) \<notin> set [''X'', ''O'']"
    and g': "g' = after_move g box" and out: "out = outcome g'"
    by (cases rule: move_cases[of box g]; simp)+
  show "g' = after_move g box" by fact
  show "out = outcome g'" by fact
  from assms(1) have v: "valid_game g" by (simp add: in_progress_def)
  show v': "valid_game g'"
    unfolding g' by (rule valid_game_after_move[OF v free])
  show "(box_row box, box_col box) \<in> set (get_empty_box_positions (board g))"
    by (rule position_is_empty[OF box_row_col(1,2)[OF free(1,2)] free(3)])
  show "board g' = set_cell (board g) (box_row box) (box_col box) (next_mark g)"
    by (simp add: g' after_move_def)
  show "next_mark g' = opponent (next_mark g)"
    unfolding g' by (rule next_mark_after_move)
  have le: "turn g' \<le> 9"
    using v' count_marked_empty_count[of "board g'"] by (simp add: valid_game_def)
  show "in_progress g'" if "out = None"
    using that v' le unfolding out outcome_def in_progress_def
    by (auto split: if_splits)
  show "get_winner (board g') = Some w" if "out = Some w" "w \<noteq> ''Tie''"
    using that unfolding out outcome_def by (auto split: if_splits)
qed

lemma move_position:
  assumes "(i, j) \<in> set (get_empty_box_positions (board g))"
  shows "\<exists>out g'. move g (get_box_number i j) = (Inr out, g') \<and>
           board g' = set_cell (board g) i j (next_mark g)"
proof -
  note pc = pos_cases[OF assms]
  note c = pc[THEN conjunct1] pc[THEN conjunct2, THEN conjunct1] pc[THEN conjunct2, THEN conjunct2]
  note b = box_of_position[OF c(1,2)]
  from c(3) have "cell (board g) (box_row (get_box_number i j)) (box_col (get_box_number i j)) \<notin> set [''X'', ''O'']"
    by (simp only: b simp_thms)
  from move_free[OF b(1,2) this, of ] show ?thesis
    by (simp add: after_move_def b)
qed

lemma game_loop_never_lost:
  assumes "in_progress g" "safe (Bot_symbol (\<not> hf)) (board g) (next_mark g)"
    "game_loop g hf inputs = Inr (w, p)"
  shows "w = Bot_symbol (\<not> hf) \<or> w = ''Tie''"
  using assms
proof (induction g hf inputs rule: game_loop.induct)
  case (1 g hf inputs)
  let ?bot = "Bot_symbol (\<not> hf)"
  note ev = in_progress_evaluate[OF "1.prems"(1), of ?bot]
  note unf = "1.prems"(3)[unfolded game_loop.simps[of g hf inputs]]
  have step: "w = ?bot \<or> w = ''Tie''"
    if mv: "move g box = (Inr out, g')" and sf: "safe ?bot (board g') (next_mark g')"
      and res: "(case out of None \<Rightarrow> game_loop g' hf rest | Some winner \<Rightarrow> Inr (winner, pl)) = Inr (w, p)"
      and ih: "out = None \<Longrightarrow> in_progress g' \<Longrightarrow> safe ?bot (board g') (next_mark g') \<Longrightarrow>
               game_loop g' hf rest = Inr (w, p) \<Longrightarrow> w = ?bot \<or> w = ''Tie''"
    for box out g' rest pl
  proof (cases out)
    case None
    with res have "game_loop g' hf rest = Inr (w, p)" by simp
    from ih[OF None move_in_progress(7)[OF "1.prems"(1) mv None] sf this] show ?thesis .
  next
    case (Some w')
    with res have w': "w' = w" by simp
    show ?thesis
    proof (cases "w = ''Tie''")
      case False
      from move_in_progress(8)[OF "1.prems"(1) mv, of w] Some w' False
      have "get_winner (board g') = Some w" by simp
      from safe_winner[OF sf this] show ?thesis by simp
    qed simp
  qed
  show ?case
  proof (cases "turn g mod 2 = (if hf then 0 else 1)")
    case True
    then have nm: "next_mark g \<noteq> ?bot" by (auto simp: next_mark_def Bot_symbol_def)
    show ?thesis
    proof (cases inputs)
      case Nil
      with True unf show ?thesis by simp
    next
      case (Cons x rest)
      show ?thesis
      proof (cases x)
        case None
        with True Cons unf have "game_loop g hf rest = Inr (w, p)"
          by simp
        from "1.IH"(1)[OF True Cons None "1.prems"(1,2) this] show ?thesis .
      next
        case (Some box)
        obtain res g' where mv: "move g box = (res, g')" by (cases "move g box")
        show ?thesis
        proof (cases res)
          case (Inl e)
          with True Cons Some mv unf show ?thesis
            by simp
        next
          case (Inr out)
          note mv' = mv[unfolded Inr]
          from opponent_choice[OF ev "1.prems"(2) nm move_in_progress(4)[OF "1.prems"(1) mv']]
          have sf: "safe ?bot (board g') (next_mark g')"
            by (simp only: move_in_progress(5,6)[OF "1.prems"(1) mv'])
          from True Cons Some mv' unf
          have res: "(case out of None \<Rightarrow> game_loop g' hf rest | Some winner \<Rightarrow> Inr (winner, ''You'')) = Inr (w, p)"
            by simp
          show ?thesis
            by (rule step[OF mv' sf res]) (rule "1.IH"(2)[OF True Cons Some mv[symmetric] Inr])
        qed
      qed
    qed
  next
    case False
    then have nm: "next_mark g = ?bot" by (auto simp: next_mark_def Bot_symbol_def) presburger+
    from bot_choice[OF ev "1.prems"(2)[unfolded nm]] obtain i j where
      ij: "(i, j) \<in> set (get_empty_box_positions (board g))"
        "MinimaxBot_move ?bot (board g) = Some (get_box_number i j)"
        "safe ?bot (set_cell (board g) i j ?bot) (opponent ?bot)"
      by blast
    from move_position[OF ij(1)] obtain out g' where
      mv: "move g (get_box_number i j) = (Inr out, g')" and b': "board g' = set_cell (board g) i j (next_mark g)"
      by blast
    from ij(3) have sf: "safe ?bot (board g') (next_mark g')"
      by (simp only: b' move_in_progress(6)[OF "1.prems"(1) mv] nm)
    from False ij(2) mv unf
    have res: "(case out of None \<Rightarrow> game_loop g' hf inputs | Some winner \<Rightarrow> Inr (winner, ''Bot'')) = Inr (w, p)"
      by simp
    show ?thesis
      by (rule step[OF mv sf res]) (rule "1.IH"(3)[OF False ij(2) mv[symmetric] refl])
  qed
qed


lemma self_play_tie:
  assumes "in_progress g" "safe ''X'' (board g) (next_mark g)" "safe ''O'' (board g) (next_mark g)"
  shows "self_play g = Inr ''Tie''"
  using assms
proof (induction g rule: self_play.induct)
  case (1 g)
  let ?m = "next_mark g"
  have m: "Bot_symbol (turn g mod 2 = 0) = ?m" by (simp add: Bot_symbol_def next_mark_def)
  have xo: "?m = ''X'' \<and> opponent ?m = ''O'' \<or> ?m = ''O'' \<and> opponent ?m = ''X''"
    by (simp add: next_mark_def opponent_def)
  from xo "1.prems"(2,3) have sm: "safe ?m (board g) ?m" and so: "safe (opponent ?m) (board g) ?m"
    by auto
  from bot_choice[OF in_progress_evaluate[OF "1.prems"(1)] sm] obtain i j where
    ij: "(i, j) \<in> set (get_empty_box_positions (board g))"
      "MinimaxBot_move ?m (board g) = Some (get_box_number i j)"
      "safe ?m (set_cell (board g) i j ?m) (opponent ?m)"
    by blast
  from xo have "?m \<noteq> opponent ?m" by auto
  from opponent_choice[OF in_progress_evaluate[OF "1.prems"(1)] so this ij(1)]
  have so': "safe (opponent ?m) (set_cell (board g) i j ?m) (opponent ?m)" .
  from move_position[OF ij(1)] obtain out g' where
    mv: "move g (get_box_number i j) = (Inr out, g')" and b': "board g' = set_cell (board g) i j ?m"
    by blast
  note nm' = move_in_progress(6)[OF "1.prems"(1) mv]
  from xo ij(3) so' have sx: "safe ''X'' (board g') (next_mark g')" and sy: "safe ''O'' (board g') (next_mark g')"
    unfolding b' nm' by auto
  have unf: "self_play g = (case out of None \<Rightarrow> self_play g' | Some winner \<Rightarrow> Inr winner)"
    by (simp add: self_play.simps[of g] m ij(2) mv)
  show ?case
  proof (cases out)
    case None
    from "1.IH"[OF ij(2)[folded m] mv[symmetric] refl None move_in_progress(7)[OF "1.prems"(1) mv None] sx sy]
    show ?thesis by (simp add: unf None)
  next
    case (Some w)
    have "w = ''Tie''"
    proof (rule ccontr)
      assume "w \<noteq> ''Tie''"
      from move_in_progress(8)[OF "1.prems"(1) mv Some this] have "get_winner (board g') = Some w" .
      from safe_winner[OF sx this] safe_winner[OF sy this] show False by simp
    qed
    then show ?thesis by (simp add: unf Some)
  qed
qed

section \<open>Evaluating positions\<close>

text \<open>
  The search from the empty board visits thousands of positions. To evaluate it with the
  simplifier, each of the eleven cell texts gets a name, and each function one rewrite
  rule on a board written out as nine cells.
\<close>

definition free :: "string \<Rightarrow> bool" where
  "free c \<longleftrightarrow> c \<notin> set [''X'', ''O'']"

definition cX :: string where "cX = ''X''"
definition cO :: string where "cO = ''O''"
definition c1 :: string where "c1 = ''1''"
definition c2 :: string where "c2 = ''2''"
definition c3 :: string where "c3 = ''3''"
definition c4 :: string where "c4 = ''4''"
definition c5 :: string where "c5 = ''5''"
definition c6 :: string where "c6 = ''6''"
definition c7 :: string where "c7 = ''7''"
definition c8 :: string where "c8 = ''8''"
definition c9 :: string where "c9 = ''9''"

lemmas c_defs = cX_def cO_def c1_def c2_def c3_def c4_def c5_def c6_def c7_def c8_def c9_def

lemma c_distinct: "distinct [cX, cO, c1, c2, c3, c4, c5, c6, c7, c8, c9]"
  by (simp add: c_defs)

lemma c_distinct_rev: "distinct [c9, c8, c7, c6, c5, c4, c3, c2, c1, cO, cX]"
  by (simp add: c_defs)

lemmas c_neq = c_distinct[simplified] c_distinct_rev[simplified]

lemma free_c: "free cX = False" "free cO = False" "free c1 = True" "free c2 = True" "free c3 = True"
  "free c4 = True" "free c5 = True" "free c6 = True" "free c7 = True" "free c8 = True" "free c9 = True"
  by (simp_all add: free_def c_defs)

lemma opponent_c: "opponent cX = cO" "opponent cO = cX"
  by (simp_all add: opponent_def c_defs)


lemma all_marked: "list_all (\<lambda>c. c \<in> set [''X'', ''O'']) [a, b, c, d, e, f, g, h, k]
   = (\<not> (free a \<or> free b \<or> free c \<or> free d \<or> free e \<or> free f \<or> free g \<or> free h \<or> free k))"
  unfolding free_def by (simp only: list.pred_inject de_Morgan_disj not_not simp_thms)

lemma if_neg: "(if \<not> P then x else y) = (if P then y else x)"
  by simp

lemma evaluate_cells:
  "evaluate self ((a, b, c), (d, e, f), (g, h, k)) =
     (if a = b \<and> b = c then Some (if a = self then 10 else - 10)
      else if a = d \<and> d = g then Some (if a = self then 10 else - 10)
      else if d = e \<and> e = f then Some (if d = self then 10 else - 10)
      else if b = e \<and> e = h then Some (if b = self then 10 else - 10)
      else if g = h \<and> h = k then Some (if g = self then 10 else - 10)
      else if c = f \<and> f = k then Some (if c = self then 10 else - 10)
      else if a = e \<and> e = k then Some (if a = self then 10 else - 10)
      else if c = e \<and> e = g then Some (if c = self then 10 else - 10)
      else if free a \<or> free b \<or> free c \<or> free d \<or> free e \<or> free f \<or> free g \<or> free h \<or> free k
        then None else Some 0)"
  by (simp only: evaluate_tuple all_marked if_neg)

lemma positions_cells:
  "get_empty_box_positions ((a, b, c), (d, e, f), (g, h, k)) =
     (if free a then [(0, 0)] else []) @ (if free b then [(0, 1)] else []) @ (if free c then [(0, 2)] else []) @
     (if free d then [(1, 0)] else []) @ (if free e then [(1, 1)] else []) @ (if free f then [(1, 2)] else []) @
     (if free g then [(2, 0)] else []) @ (if free h then [(2, 1)] else []) @ (if free k then [(2, 2)] else [])"
  by (simp only: get_empty_box_positions_def cell_def free_def nth3.simps nat_facts
        if_True if_False list.map concat.simps append.simps append_Nil2 append_assoc)

lemma set_cell_cells:
  "set_cell ((a, b, c), (d, e, f), (g, h, k)) 0 0 v = ((v, b, c), (d, e, f), (g, h, k))"
  "set_cell ((a, b, c), (d, e, f), (g, h, k)) 0 1 v = ((a, v, c), (d, e, f), (g, h, k))"
  "set_cell ((a, b, c), (d, e, f), (g, h, k)) 0 2 v = ((a, b, v), (d, e, f), (g, h, k))"
  "set_cell ((a, b, c), (d, e, f), (g, h, k)) 1 0 v = ((a, b, c), (v, e, f), (g, h, k))"
  "set_cell ((a, b, c), (d, e, f), (g, h, k)) 1 1 v = ((a, b, c), (d, v, f), (g, h, k))"
  "set_cell ((a, b, c), (d, e, f), (g, h, k)) 1 2 v = ((a, b, c), (d, e, v), (g, h, k))"
  "set_cell ((a, b, c), (d, e, f), (g, h, k)) 2 0 v = ((a, b, c), (d, e, f), (v, h, k))"
  "set_cell ((a, b, c), (d, e, f), (g, h, k)) 2 1 v = ((a, b, c), (d, e, f), (g, v, k))"
  "set_cell ((a, b, c), (d, e, f), (g, h, k)) 2 2 v = ((a, b, c), (d, e, f), (g, h, v))"
  by (simp_all only: set_cell_def nth3.simps upd3.simps nat_facts if_True if_False)

lemma score_facts: "((0::int) \<le> 10) = True" "((0::int) \<le> - 10) = False" "((0::int) \<le> 0) = True"
  "((10::int) \<le> 0) = False" "((- 10::int) \<le> 0) = True"
  by simp_all

lemma safe_cells:
  "safe self ((a, b, c), (d, e, f), (g, h, k)) symbol =
     (case evaluate self ((a, b, c), (d, e, f), (g, h, k)) of
        Some sc \<Rightarrow> 0 \<le> sc
      | None \<Rightarrow>
          if symbol = self
          then safe_any self ((a, b, c), (d, e, f), (g, h, k)) symbol
                 (get_empty_box_positions ((a, b, c), (d, e, f), (g, h, k)))
          else safe_all self ((a, b, c), (d, e, f), (g, h, k)) symbol
                 (get_empty_box_positions ((a, b, c), (d, e, f), (g, h, k))))"
  by (rule safe_unfold)

lemma capped_cells:
  "capped self ((a, b, c), (d, e, f), (g, h, k)) symbol =
     (case evaluate self ((a, b, c), (d, e, f), (g, h, k)) of
        Some sc \<Rightarrow> sc \<le> 0
      | None \<Rightarrow>
          if symbol = self
          then capped_all self ((a, b, c), (d, e, f), (g, h, k)) symbol
                 (get_empty_box_positions ((a, b, c), (d, e, f), (g, h, k)))
          else capped_any self ((a, b, c), (d, e, f), (g, h, k)) symbol
                 (get_empty_box_positions ((a, b, c), (d, e, f), (g, h, k))))"
  by (rule capped_unfold)

lemmas search_rules =
  safe_cells safe_any_Nil safe_any_Cons safe_all_Nil safe_all_Cons
  capped_cells capped_any_Nil capped_any_Cons capped_all_Nil capped_all_Cons
  evaluate_cells positions_cells set_cell_cells opponent_c free_c score_facts c_neq
  if_True if_False simp_thms option.case append.simps

lemma Game_init_cells: "board Game_init = ((c1, c2, c3), (c4, c5, c6), (c7, c8, c9))"
  by (simp only: Game_init_board c_defs)

lemma safe_X_init: "safe ''X'' (board Game_init) ''X''"
  unfolding Game_init_cells cX_def[symmetric]
  by (simp only: search_rules cong: if_weak_cong option.case_cong_weak)

lemma safe_O_init: "safe ''O'' (board Game_init) ''X''"
  unfolding Game_init_cells cX_def[symmetric] cO_def[symmetric]
  by (simp only: search_rules cong: if_weak_cong option.case_cong_weak)

definition box_of :: "nat \<times> nat \<Rightarrow> int" where
  "box_of p = get_box_number (fst p) (snd p)"

definition first_uncapped :: "string \<Rightarrow> board \<Rightarrow> (nat \<times> nat) list \<Rightarrow> (nat \<times> nat) option" where
  "first_uncapped self b ps =
     find (\<lambda>p. \<not> capped self (set_cell b (fst p) (snd p) self) (opponent self)) ps"

definition first_safe :: "string \<Rightarrow> board \<Rightarrow> (nat \<times> nat) list \<Rightarrow> (nat \<times> nat) option" where
  "first_safe self b ps =
     find (\<lambda>p. safe self (set_cell b (fst p) (snd p) self) (opponent self)) ps"

definition pick :: "string \<Rightarrow> board \<Rightarrow> (nat \<times> nat) list \<Rightarrow> int option" where
  "pick self b ps =
     (case first_uncapped self b ps of
        Some p \<Rightarrow> Some (box_of p)
      | None \<Rightarrow>
          (case first_safe self b ps of
             Some p \<Rightarrow> Some (box_of p)
           | None \<Rightarrow> (case ps of [] \<Rightarrow> None | p # rest \<Rightarrow> Some (box_of p))))"

lemma find_least:
  assumes "sorted_wrt (<) (map f xs)" "find Q xs = Some p"
  shows "Q p \<and> p \<in> set xs \<and> (\<forall>q \<in> set xs. Q q \<longrightarrow> (f p :: int) \<le> f q)"
  using assms
proof (induction xs)
  case Nil
  then show ?case by simp
next
  case (Cons x xs)
  show ?case
  proof (cases "Q x")
    case True
    with Cons.prems show ?thesis by (auto simp: less_imp_le)
  next
    case False
    with Cons.prems have "sorted_wrt (<) (map f xs)" "find Q xs = Some p" by simp_all
    from Cons.IH[OF this] False show ?thesis by auto
  qed
qed

lemma positions_sorted: "sorted_wrt (<) (map box_of (get_empty_box_positions b))"
proof -
  have "map fst (move_scores self b) = map box_of (get_empty_box_positions b)" for self
    by (simp add: move_scores_def box_of_def split_beta o_def)
  with box_numbers_sorted[of "''X''" b] show ?thesis by simp
qed

lemma MinimaxBot_move_pick: "MinimaxBot_move self b = pick self b (get_empty_box_positions b)"
proof (cases "get_empty_box_positions b = []")
  case True
  then show ?thesis
    by (simp add: MinimaxBot_move_def move_scores_def pick_def first_uncapped_def first_safe_def)
next
  case False
  let ?ps = "get_empty_box_positions b"
  let ?sc = "\<lambda>p. child_score self b (fst p) (snd p)"
  from MinimaxBot_move_spec[OF False, of self] obtain i j where
    ij: "(i, j) \<in> set ?ps" "MinimaxBot_move self b = Some (box_of (i, j))"
      and mx: "\<forall>p \<in> set ?ps. ?sc p \<le> ?sc (i, j) \<and> (?sc p = ?sc (i, j) \<longrightarrow> box_of (i, j) \<le> box_of p)"
    by (auto simp: box_of_def split_beta)
  have rng: "?sc p \<in> {- 10, 0, 10}" for p
    unfolding child_score_def by (rule minimax_range)
  have cap: "capped self (set_cell b (fst p) (snd p) self) (opponent self) \<longleftrightarrow> ?sc p \<le> 0" for p
    by (simp add: capped_def child_score_def)
  have saf: "safe self (set_cell b (fst p) (snd p) self) (opponent self) \<longleftrightarrow> 0 \<le> ?sc p" for p
    by (simp add: safe_def child_score_def)
  have same: "box_of p = box_of (i, j)" if "p \<in> set ?ps" "?sc p = ?sc (i, j)" "box_of p \<le> box_of (i, j)" for p
    using mx that by force
  show ?thesis
  proof (cases "first_uncapped self b ?ps")
    case (Some p)
    from find_least[OF positions_sorted Some[unfolded first_uncapped_def]]
    have p: "\<not> ?sc p \<le> 0" "p \<in> set ?ps"
      and least: "\<forall>q \<in> set ?ps. \<not> ?sc q \<le> 0 \<longrightarrow> box_of p \<le> box_of q"
      by (simp_all add: cap)
    from p(1) rng[of p] have "?sc p = 10" by auto
    moreover from mx p(2) have "?sc p \<le> ?sc (i, j)" by blast
    ultimately have "?sc (i, j) = 10" using rng[of "(i, j)"] by auto
    with least ij(1) \<open>?sc p = 10\<close> have "box_of p \<le> box_of (i, j)" "?sc p = ?sc (i, j)" by auto
    from same[OF p(2) this(2,1)] show ?thesis by (simp add: ij(2) pick_def Some)
  next
    case None
    then have allcap: "\<forall>q \<in> set ?ps. ?sc q \<le> 0"
      by (simp add: first_uncapped_def find_None_iff cap)
    show ?thesis
    proof (cases "first_safe self b ?ps")
      case (Some p)
      from find_least[OF positions_sorted Some[unfolded first_safe_def]]
      have p: "0 \<le> ?sc p" "p \<in> set ?ps"
        and least: "\<forall>q \<in> set ?ps. 0 \<le> ?sc q \<longrightarrow> box_of p \<le> box_of q"
        by (simp_all add: saf)
      from allcap p have "?sc p = 0" by force
      moreover from mx p(2) have "?sc p \<le> ?sc (i, j)" by blast
      moreover from allcap ij(1) have "?sc (i, j) \<le> 0" by blast
      ultimately have "?sc (i, j) = 0" by simp
      with least ij(1) \<open>?sc p = 0\<close> have "box_of p \<le> box_of (i, j)" "?sc p = ?sc (i, j)" by auto
      from same[OF p(2) this(2,1)] show ?thesis
        by (simp add: ij(2) pick_def Some \<open>first_uncapped self b ?ps = None\<close>)
    next
      case none: None
      then have allneg: "\<forall>q \<in> set ?ps. \<not> 0 \<le> ?sc q"
        by (simp add: first_safe_def find_None_iff saf)
      have all10: "?sc q = - 10" if "q \<in> set ?ps" for q
        using allneg that rng[of q] by auto
      from False obtain p rest where ps: "?ps = p # rest" by (cases ?ps) auto
      from positions_sorted[of b] have "\<forall>q \<in> set ?ps. box_of p \<le> box_of q"
        unfolding ps by (auto simp: less_imp_le)
      with ij(1) have "box_of p \<le> box_of (i, j)" by blast
      moreover have "p \<in> set ?ps" by (simp add: ps)
      moreover from all10[OF this] all10[OF ij(1)] have "?sc p = ?sc (i, j)" by simp
      ultimately have eq: "box_of p = box_of (i, j)" using same by blast
      have "pick self b ?ps = (case ?ps of [] \<Rightarrow> None | p # rest \<Rightarrow> Some (box_of p))"
        by (simp add: pick_def none \<open>first_uncapped self b ?ps = None\<close>)
      also have "\<dots> = Some (box_of p)" by (simp add: ps)
      finally show ?thesis by (simp add: ij(2) eq)
    qed
  qed
qed

lemma first_uncapped_Nil: "first_uncapped self b [] = None"
  by (simp add: first_uncapped_def)

lemma first_uncapped_Cons:
  "first_uncapped self b ((i, j) # ps) =
     (if capped self (set_cell b i j self) (opponent self) then first_uncapped self b ps else Some (i, j))"
  by (simp add: first_uncapped_def)

lemma first_safe_Nil: "first_safe self b [] = None"
  by (simp add: first_safe_def)

lemma first_safe_Cons:
  "first_safe self b ((i, j) # ps) =
     (if safe self (set_cell b i j self) (opponent self) then Some (i, j) else first_safe self b ps)"
  by (simp add: first_safe_def)

lemma box_of_cells:
  "box_of (0, 0) = 1" "box_of (0, 1) = 2" "box_of (0, 2) = 3"
  "box_of (1, 0) = 4" "box_of (1, 1) = 5" "box_of (1, 2) = 6"
  "box_of (2, 0) = 7" "box_of (2, 1) = 8" "box_of (2, 2) = 9"
  by (simp_all add: box_of_def get_box_number_def)

lemmas pick_rules =
  MinimaxBot_move_pick pick_def first_uncapped_Nil first_uncapped_Cons first_safe_Nil first_safe_Cons
  box_of_cells list.case search_rules

lemma bot_reply_1: "MinimaxBot_move cO ((cX, c2, c3), (c4, c5, c6), (c7, c8, c9)) = Some 5"
  by (simp only: pick_rules cong: if_weak_cong option.case_cong_weak)

lemma bot_reply_2: "MinimaxBot_move cO ((cX, cX, c3), (c4, cO, c6), (c7, c8, c9)) = Some 3"
  by (simp only: pick_rules cong: if_weak_cong option.case_cong_weak)

lemma bot_reply_3: "MinimaxBot_move cO ((cX, cX, cO), (cX, cO, c6), (c7, c8, c9)) = Some 7"
  by (simp only: pick_rules cong: if_weak_cong option.case_cong_weak)

lemmas play_rules =
  move_def Let_def box_row_def box_col_def cell_def set_cell_def next_mark_def get_winner_tuple
  Bot_symbol_def cX_def[symmetric] cO_def[symmetric] c_neq bot_reply_1 bot_reply_2 bot_reply_3

lemma Game_init_c: "Game_init = \<lparr>board = ((c1, c2, c3), (c4, c5, c6), (c7, c8, c9)), turn = 0\<rparr>"
  using Game_init_cells by (cases Game_init) (simp add: Game_init_def)

lemma sample_game: "game_loop Game_init True [Some 1, Some 2, Some 4] = Inr (''O'', ''Bot'')"
  unfolding Game_init_c
  apply (subst game_loop.simps, simp add: play_rules)
  apply (subst game_loop.simps, simp add: play_rules)
  apply (subst game_loop.simps, simp add: play_rules)
  apply (subst game_loop.simps, simp add: play_rules)
  apply (subst game_loop.simps, simp add: play_rules)
  apply (subst game_loop.simps, simp add: play_rules)
  done

section \<open>Claims about the bot\<close>

lemma next_mark_init: "next_mark Game_init = ''X''"
  by (simp add: next_mark_def Game_init_def)

text \<open>
  C1. When both players choose every move with \<^verbatim>\<open>MinimaxBot.move\<close>, starting from a
  new game, and every move is applied with \<^verbatim>\<open>Game.move\<close>, the game ends and its
  outcome is \<^verbatim>\<open>'Tie'\<close>. (The two bots run the same code, so exchanging them changes
  nothing: the bot playing \<^verbatim>\<open>'X'\<close> moves at even turns.)
\<close>

theorem minimax_self_play_ties:
  "self_play Game_init = Inr ''Tie''"
  using self_play_tie[OF in_progress_init] safe_X_init safe_O_init
  by (simp add: next_mark_init)

theorem minimax_self_play_ties_witness:
  "self_play Game_init = Inr ''Tie'' \<and> self_play Game_init \<noteq> Inr ''X'' \<and> self_play Game_init \<noteq> Inr ''O''"
  using minimax_self_play_ties by simp

text \<open>
  C2. In a game played from a new board by \<^verbatim>\<open>game_loop\<close>, with the minimax bot
  choosing its own moves and any input whatsoever from the opponent, an outcome is never
  a win for the opponent's symbol: it is a win for the bot or a tie.
\<close>

theorem minimax_never_loses:
  assumes "game_loop Game_init human_goes_first inputs = Inr (winner, player)"
  shows "winner \<noteq> (if human_goes_first then ''X'' else ''O'') \<and>
         (winner = Bot_symbol (\<not> human_goes_first) \<or> winner = ''Tie'')"
proof -
  have "safe (Bot_symbol (\<not> human_goes_first)) (board Game_init) (next_mark Game_init)"
    using safe_X_init safe_O_init by (simp add: next_mark_init Bot_symbol_def)
  from game_loop_never_lost[OF in_progress_init this assms]
  show ?thesis by (auto simp: Bot_symbol_def)
qed

theorem minimax_never_loses_witness:
  "game_loop Game_init True [Some 1, Some 2, Some 4] = Inr (''O'', ''Bot'') \<and>
   ''O'' \<noteq> (if True then ''X'' else ''O'') \<and> ''O'' = Bot_symbol (\<not> True)"
  using minimax_never_loses[OF sample_game] sample_game by (simp add: Bot_symbol_def)

lemma max_of_Max: "xs \<noteq> [] \<Longrightarrow> max_of xs = Max (set xs)"
  by (cases xs) (simp_all add: Max.set_eq_fold[symmetric])

lemma min_of_Min: "xs \<noteq> [] \<Longrightarrow> min_of xs = Min (set xs)"
  by (cases xs) (simp_all add: Min.set_eq_fold[symmetric])

lemma evaluate_first_complete_line:
  assumes "valid_board b"
  shows "evaluate self b =
     (case first_complete_line b of
        Some l \<Rightarrow> Some (if line_mark b l = self then 10 else - 10)
      | None \<Rightarrow> if list_all (\<lambda>c. c \<in> set [''X'', ''O'']) (cells b) then Some 0 else None)"
  unfolding evaluate_get_winner get_winner_first_complete_line[OF assms]
  by (cases "first_complete_line b") simp_all

lemma minimax_Max_Min:
  "minimax self b symbol =
     (case evaluate self b of
        Some score \<Rightarrow> score
      | None \<Rightarrow>
          let scores = map (\<lambda>(i, j). minimax self (set_cell b i j symbol) (opponent symbol))
                           (get_empty_box_positions b)
          in if symbol = self then Max (set scores) else Min (set scores))"
proof (cases "evaluate self b")
  case None
  let ?scores = "map (\<lambda>(i, j). minimax self (set_cell b i j symbol) (opponent symbol))
                     (get_empty_box_positions b)"
  from evaluate_None_empty[OF None] have "?scores \<noteq> []" by simp
  from max_of_Max[OF this] min_of_Min[OF this] show ?thesis
    unfolding minimax.simps[of self b symbol] None
    by (cases "symbol = self") (simp_all add: Let_def)
next
  case (Some a)
  then show ?thesis unfolding minimax.simps[of self b symbol] by simp
qed

text \<open>
  C8, as amended. On every validly represented board, \<^verbatim>\<open>_evaluate\<close> scores 10 if the
  first complete line in the scan order holds the bot's own symbol, -10 if it holds the
  other symbol, 0 if there is no complete line and the board is full, and nothing
  otherwise; \<^verbatim>\<open>_minimax\<close> returns that score if there is one, and otherwise places the
  symbol to move in each free cell in turn, recurses for the opposite symbol, and returns
  the maximum of the scores when the symbol to move is the bot's own and the minimum
  otherwise.
\<close>

theorem minimax_scores:
  assumes "valid_board b"
  shows "evaluate self b =
           (case first_complete_line b of
              Some l \<Rightarrow> Some (if line_mark b l = self then 10 else - 10)
            | None \<Rightarrow> if list_all (\<lambda>c. c \<in> set [''X'', ''O'']) (cells b) then Some 0 else None) \<and>
         minimax self b symbol =
           (case evaluate self b of
              Some score \<Rightarrow> score
            | None \<Rightarrow>
                let scores = map (\<lambda>(i, j). minimax self (set_cell b i j symbol) (opponent symbol))
                                 (get_empty_box_positions b)
                in if symbol = self then Max (set scores) else Min (set scores))"
  using evaluate_first_complete_line[OF assms] minimax_Max_Min by blast

theorem minimax_scores_witness:
  "valid_board ((''X'', ''O'', ''X''), (''O'', ''X'', ''O''), (''O'', ''X'', ''9'')) \<and>
   evaluate ''X'' ((''X'', ''O'', ''X''), (''O'', ''X'', ''O''), (''O'', ''X'', ''9'')) = None \<and>
   get_empty_box_positions ((''X'', ''O'', ''X''), (''O'', ''X'', ''O''), (''O'', ''X'', ''9'')) = [(2, 2)] \<and>
   valid_board ((''X'', ''O'', ''X''), (''O'', ''X'', ''O''), (''O'', ''X'', ''X'')) \<and>
   evaluate ''X'' ((''X'', ''O'', ''X''), (''O'', ''X'', ''O''), (''O'', ''X'', ''X'')) = Some 10 \<and>
   minimax ''X'' ((''X'', ''O'', ''X''), (''O'', ''X'', ''O''), (''O'', ''X'', ''9'')) ''X'' = 10 \<and>
   valid_board ((''X'', ''O'', ''X''), (''X'', ''O'', ''O''), (''O'', ''X'', ''X'')) \<and>
   minimax ''X'' ((''X'', ''O'', ''X''), (''X'', ''O'', ''O''), (''O'', ''X'', ''X'')) ''O'' = 0 \<and>
   valid_board ((''X'', ''O'', ''X''), (''O'', ''O'', ''O''), (''7'', ''X'', ''X'')) \<and>
   minimax ''X'' ((''X'', ''O'', ''X''), (''O'', ''O'', ''O''), (''7'', ''X'', ''X'')) ''X'' = - 10"
proof -
  let ?B = "((''X'', ''O'', ''X''), (''O'', ''X'', ''O''), (''O'', ''X'', ''9''))"
  let ?W = "((''X'', ''O'', ''X''), (''O'', ''X'', ''O''), (''O'', ''X'', ''X''))"
  let ?T = "((''X'', ''O'', ''X''), (''X'', ''O'', ''O''), (''O'', ''X'', ''X''))"
  let ?L = "((''X'', ''O'', ''X''), (''O'', ''O'', ''O''), (''7'', ''X'', ''X''))"
  have v: "valid_board ?B" "valid_board ?W" "valid_board ?T" "valid_board ?L"
    by (simp_all add: valid_board_tuple)
  have f: "first_complete_line ?B = None" "first_complete_line ?W = Some ((0, 0), (1, 1), (2, 2))"
    "first_complete_line ?T = None" "first_complete_line ?L = Some ((1, 0), (1, 1), (1, 2))"
    by (simp_all add: first_complete_line_def scan_lines_def cell_def)
  have ps: "get_empty_box_positions ?B = [(2, 2)]" "set_cell ?B 2 2 ''X'' = ?W"
    by (simp_all add: get_empty_box_positions_def cell_def set_cell_def)
  note B = minimax_scores[OF v(1), of "''X''" "''X''"]
  note W = minimax_scores[OF v(2), of "''X''" "''O''"]
  note T = minimax_scores[OF v(3), of "''X''" "''O''"]
  note L = minimax_scores[OF v(4), of "''X''" "''X''"]
  have eB: "evaluate ''X'' ?B = None" using B f(1) by (simp add: cells_def)
  have eW: "evaluate ''X'' ?W = Some 10" using W f(2) by (simp add: line_mark_def cell_def)
  have mW: "minimax ''X'' ?W ''O'' = 10" using W eW by simp
  have mB: "minimax ''X'' ?B ''X'' = 10"
    using B eB ps mW by (simp add: opponent_def)
  have mT: "minimax ''X'' ?T ''O'' = 0" using T f(3) by (simp add: cells_def)
  have mL: "minimax ''X'' ?L ''X'' = - 10" using L f(4) by (simp add: line_mark_def cell_def)
  from v eB ps(1) eW mB mT mL show ?thesis by simp
qed

text \<open>
  C8 as stated fails on a board with complete lines of both symbols: here row 1 is
  complete for the bot's own symbol \<^verbatim>\<open>'O'\<close>, and the score is -10, because row 0,
  complete for \<^verbatim>\<open>'X'\<close>, is tested first.
\<close>

theorem minimax_scores_counterexample:
  "valid_board ((''X'', ''X'', ''X''), (''O'', ''O'', ''O''), (''7'', ''8'', ''9'')) \<and>
   complete_line ((''X'', ''X'', ''X''), (''O'', ''O'', ''O''), (''7'', ''8'', ''9'')) ((1, 0), (1, 1), (1, 2)) \<and>
   line_mark ((''X'', ''X'', ''X''), (''O'', ''O'', ''O''), (''7'', ''8'', ''9'')) ((1, 0), (1, 1), (1, 2)) = ''O'' \<and>
   evaluate ''O'' ((''X'', ''X'', ''X''), (''O'', ''O'', ''O''), (''7'', ''8'', ''9'')) = Some (- 10) \<and>
   minimax ''O'' ((''X'', ''X'', ''X''), (''O'', ''O'', ''O''), (''7'', ''8'', ''9'')) ''X'' = - 10"
proof -
  let ?B = "((''X'', ''X'', ''X''), (''O'', ''O'', ''O''), (''7'', ''8'', ''9''))"
  have e: "evaluate ''O'' ?B = Some (- 10)" by (simp add: evaluate_tuple)
  then have "minimax ''O'' ?B ''X'' = - 10" by (simp add: minimax.simps[of "''O''" ?B "''X''"])
  with e show ?thesis by (simp add: valid_board_tuple line_mark_def cell_def)
qed

section \<open>The board as objects in a store\<close>

text \<open>
  \<^verbatim>\<open>MinimaxBot.move\<close> assigns to cells of a board while the live game holds a board
  too, so whether the game is touched depends on which row objects the two boards share.
  Here the rows are objects in a store: a board is three references to rows, and
  \<^verbatim>\<open>board[i][j] = v\<close> changes the row object that \<^verbatim>\<open>board[i]\<close> refers to. The outer
  lists are only ever indexed, never assigned to. The store also holds the two fields of
  the live game object.
\<close>

type_synonym ref = nat

record heap =
  rows :: "ref \<Rightarrow> string triple"
  fresh :: ref
  game_board :: "ref triple"
  game_turn :: int

text \<open>The board value seen through three row references.\<close>

definition load :: "heap \<Rightarrow> ref triple \<Rightarrow> board" where
  "load h bref = (rows h (nth3 bref 0), rows h (nth3 bref 1), rows h (nth3 bref 2))"

text \<open>\<^verbatim>\<open>board[i][j] = v\<close>.\<close>

definition store_cell :: "heap \<Rightarrow> ref triple \<Rightarrow> nat \<Rightarrow> nat \<Rightarrow> string \<Rightarrow> heap" where
  "store_cell h bref i j v = h\<lparr>rows := (rows h)(nth3 bref i := upd3 (rows h (nth3 bref i)) j v)\<rparr>"

text \<open>\<^verbatim>\<open>row[:]\<close>: a new row object with the same cells.\<close>

definition copy_row :: "heap \<Rightarrow> ref \<Rightarrow> ref \<times> heap" where
  "copy_row h r = (fresh h, h\<lparr>rows := (rows h)(fresh h := rows h r), fresh := fresh h + 1\<rparr>)"

text \<open>\<^verbatim>\<open>[row[:] for row in board]\<close>.\<close>

definition copy_board :: "heap \<Rightarrow> ref triple \<Rightarrow> ref triple \<times> heap" where
  "copy_board h bref =
     (let (r0, h0) = copy_row h (nth3 bref 0);
          (r1, h1) = copy_row h0 (nth3 bref 1);
          (r2, h2) = copy_row h1 (nth3 bref 2)
      in ((r0, r1, r2), h2))"

text \<open>
  The loop that \<^verbatim>\<open>MinimaxBot.move\<close> and \<^verbatim>\<open>_minimax\<close> share: for each free cell, write
  the symbol, search, write the cell's label back. \<open>search\<close> is the recursive call; it
  returns the score and the store as it leaves it, or nothing if it was cut off. The
  scores are collected with their box numbers; \<^verbatim>\<open>_minimax\<close> uses the scores only.
\<close>

fun search_loop ::
  "(heap \<Rightarrow> (int \<times> heap) option) \<Rightarrow> ref triple \<Rightarrow> string \<Rightarrow> (nat \<times> nat) list \<Rightarrow>
   (int \<times> int) list \<times> heap \<Rightarrow> ((int \<times> int) list \<times> heap) option" where
  "search_loop search bref symbol [] (scores, h) = Some (scores, h)"
| "search_loop search bref symbol ((i, j) # rest) (scores, h) =
     (let box = get_box_number i j in
      case search (store_cell h bref i j symbol) of
        None \<Rightarrow> None
      | Some (score, h') \<Rightarrow>
          search_loop search bref symbol rest (scores @ [(box, score)], store_cell h' bref i j (str box)))"

text \<open>
  \<^verbatim>\<open>_minimax\<close> on the store, cut off at recursion depth \<open>n\<close> (\<open>None\<close> when cut off).
  The recursion of the source is as deep as there are free cells, at most nine, plus
  the call that finds the board full.
\<close>

primrec minimax_h :: "nat \<Rightarrow> string \<Rightarrow> ref triple \<Rightarrow> string \<Rightarrow> heap \<Rightarrow> (int \<times> heap) option" where
  "minimax_h 0 self bref symbol h = None"
| "minimax_h (Suc n) self bref symbol h =
     (case evaluate self (load h bref) of
        Some score \<Rightarrow> Some (score, h)
      | None \<Rightarrow>
          (case search_loop (minimax_h n self bref (opponent symbol)) bref symbol
                  (get_empty_box_positions (load h bref)) ([], h) of
             None \<Rightarrow> None
           | Some (scores, h') \<Rightarrow>
               Some (if symbol = self then max_of (map snd scores) else min_of (map snd scores), h')))"

text \<open>\<^verbatim>\<open>MinimaxBot.move\<close> on the store.\<close>

definition MinimaxBot_move_h :: "nat \<Rightarrow> string \<Rightarrow> heap \<Rightarrow> (int option \<times> heap) option" where
  "MinimaxBot_move_h n self h =
     (let (bref, h0) = copy_board h (game_board h);
          empty_boxes = get_empty_box_positions (load h0 (game_board h0))
      in case search_loop (minimax_h n self bref (opponent self)) bref self empty_boxes ([], h0) of
           None \<Rightarrow> None
         | Some (scores, h') \<Rightarrow> Some (fst (best_loop scores (None, None)), h'))"

text \<open>The rows of the live game are objects that exist.\<close>

definition allocated :: "heap \<Rightarrow> bool" where
  "allocated h = list_all (\<lambda>r. r < fresh h) (list3 (game_board h))"

lemma upd3_upd3: "upd3 (upd3 t j v) j w = upd3 t j w"
  by (cases t rule: prod_cases3) simp

lemma upd3_nth3: "upd3 t j (nth3 t j) = t"
  by (cases t rule: prod_cases3) simp

lemma nth3_distinct:
  assumes "distinct (list3 t)" "i < 3" "k < 3" "i \<noteq> k"
  shows "nth3 t i \<noteq> nth3 t k"
  using assms lt3[OF assms(2)] lt3[OF assms(3)] by (cases t rule: prod_cases3) auto

lemma triple_nth3: "(nth3 t 0, nth3 t 1, nth3 t 2) = t"
  by (cases t rule: prod_cases3) simp

lemma load_store_cell:
  assumes "distinct (list3 bref)" "i < 3"
  shows "load (store_cell h bref i j v) bref = set_cell (load h bref) i j v"
proof -
  have d: "nth3 bref 0 \<noteq> nth3 bref 1" "nth3 bref 0 \<noteq> nth3 bref 2" "nth3 bref 1 \<noteq> nth3 bref 2"
    using assms(1) by (cases bref rule: prod_cases3; simp)+
  from lt3[OF assms(2)] show ?thesis
    using d by (auto simp: load_def store_cell_def set_cell_def)
qed

lemma store_cell_restore:
  assumes "cell (load h bref) i j = w" "i < 3"
  shows "store_cell (store_cell h bref i j v) bref i j w = h"
proof -
  from lt3[OF assms(2)] assms(1) have "nth3 (rows h (nth3 bref i)) j = w"
    by (auto simp: cell_def load_def)
  then have "upd3 (rows h (nth3 bref i)) j w = rows h (nth3 bref i)"
    using upd3_nth3[of "rows h (nth3 bref i)" j] by simp
  then show ?thesis
    by (simp add: store_cell_def upd3_upd3)
qed

lemma valid_empty_label:
  assumes "valid_board b" "(i, j) \<in> set (get_empty_box_positions b)"
  shows "cell b i j = str (get_box_number i j)"
proof -
  note pc = pos_cases[OF assms(2)]
  from assms(1) pc have "cell b i j \<in> set [''X'', ''O'', str (get_box_number i j)]"
    by (simp add: valid_board_iff del: set_simps)
  with pc show ?thesis by auto
qed

lemma opponent_in: "opponent symbol \<in> set [''X'', ''O'']"
  by (simp add: opponent_def)

lemma search_loop_restores:
  assumes rec: "\<And>h'. valid_board (load h' bref) \<Longrightarrow> empty_count (load h' bref) < n \<Longrightarrow>
                  search h' = Some (f (load h' bref), h')"
    and d: "distinct (list3 bref)" and v: "valid_board (load h bref)" and s: "symbol \<in> set [''X'', ''O'']"
    and ps: "set ps \<subseteq> set (get_empty_box_positions (load h bref))"
    and n: "empty_count (load h bref) \<le> n"
  shows "search_loop search bref symbol ps (acc, h) =
           Some (acc @ map (\<lambda>(i, j). (get_box_number i j, f (set_cell (load h bref) i j symbol))) ps, h)"
  using ps
proof (induction ps arbitrary: acc)
  case Nil
  then show ?case by simp
next
  case (Cons p ps)
  obtain i j where p: "p = (i, j)" by (cases p) auto
  from Cons.prems have mem: "(i, j) \<in> set (get_empty_box_positions (load h bref))"
    and rest: "set ps \<subseteq> set (get_empty_box_positions (load h bref))"
    by (simp_all add: p)
  note pc = pos_cases[OF mem]
  from pc have i: "i < 3" and j: "j < 3" and e: "cell (load h bref) i j \<notin> set [''X'', ''O'']" by blast+
  let ?h1 = "store_cell h bref i j symbol"
  have l1: "load ?h1 bref = set_cell (load h bref) i j symbol"
    by (rule load_store_cell[OF d i])
  have v1: "valid_board (load ?h1 bref)"
    unfolding l1 by (rule valid_board_set_cell[OF v i j s])
  have "empty_count (load ?h1 bref) < n"
    unfolding l1 using empty_count_set_cell[OF i j e, of symbol] s n by (simp del: set_simps) linarith
  from rec[OF v1 this] have r: "search ?h1 = Some (f (set_cell (load h bref) i j symbol), ?h1)"
    by (simp only: l1)
  have undo: "store_cell ?h1 bref i j (str (get_box_number i j)) = h"
    by (rule store_cell_restore[OF valid_empty_label[OF v mem] i])
  show ?case
    unfolding p by (simp add: r undo Cons.IH[OF rest] Let_def)
qed

lemma minimax_h_refines:
  assumes "distinct (list3 bref)" "valid_board (load h bref)" "symbol \<in> set [''X'', ''O'']"
    "empty_count (load h bref) < n"
  shows "minimax_h n self bref symbol h = Some (minimax self (load h bref) symbol, h)"
  using assms(2-)
proof (induction n arbitrary: h symbol)
  case 0
  then show ?case by simp
next
  case (Suc n)
  show ?case
  proof (cases "evaluate self (load h bref)")
    case (Some score)
    then show ?thesis by (simp add: minimax.simps[of self "load h bref" symbol])
  next
    case None
    have rec: "minimax_h n self bref (opponent symbol) h' = Some (minimax self (load h' bref) (opponent symbol), h')"
      if "valid_board (load h' bref)" "empty_count (load h' bref) < n" for h'
      by (rule Suc.IH[OF that(1) opponent_in that(2)])
    from Suc.prems(3) have n: "empty_count (load h bref) \<le> n" by simp
    let ?ps = "get_empty_box_positions (load h bref)"
    let ?G = "\<lambda>(i, j). (get_box_number i j, minimax self (set_cell (load h bref) i j symbol) (opponent symbol))"
    from search_loop_restores[where f = "\<lambda>b. minimax self b (opponent symbol)", OF rec assms(1) Suc.prems(1,2) subset_refl n, of "[]"]
    have sl: "search_loop (minimax_h n self bref (opponent symbol)) bref symbol ?ps ([], h) = Some (map ?G ?ps, h)"
      by simp
    have ms: "map snd (map ?G ?ps)
              = map (\<lambda>(i, j). minimax self (set_cell (load h bref) i j symbol) (opponent symbol)) ?ps"
      by (induction ?ps) auto
    show ?thesis
      unfolding minimax_h.simps None option.case sl prod.case ms minimax.simps[of self "load h bref" symbol] Let_def
      by simp
  qed
qed

lemma copy_board_spec:
  assumes "list_all (\<lambda>r. r < fresh h) (list3 gref)"
  shows "fst (copy_board h gref) = (fresh h, fresh h + 1, fresh h + 2)"
    "load (snd (copy_board h gref)) (fst (copy_board h gref)) = load h gref"
    "load (snd (copy_board h gref)) gref = load h gref"
    "\<forall>r < fresh h. rows (snd (copy_board h gref)) r = rows h r"
    "game_board (snd (copy_board h gref)) = game_board h"
    "game_turn (snd (copy_board h gref)) = game_turn h"
    "fresh (snd (copy_board h gref)) = fresh h + 3"
proof -
  obtain a b c where g: "gref = (a, b, c)" by (cases gref rule: prod_cases3)
  from assms have lt: "a < fresh h" "b < fresh h" "c < fresh h" by (simp_all add: g)
  show "fst (copy_board h gref) = (fresh h, fresh h + 1, fresh h + 2)"
    by (simp add: copy_board_def copy_row_def g)
  from lt show "load (snd (copy_board h gref)) (fst (copy_board h gref)) = load h gref"
    by (simp add: copy_board_def copy_row_def g load_def)
  from lt show "load (snd (copy_board h gref)) gref = load h gref"
    by (simp add: copy_board_def copy_row_def g load_def)
  show "\<forall>r < fresh h. rows (snd (copy_board h gref)) r = rows h r"
    by (simp add: copy_board_def copy_row_def g)
  show "game_board (snd (copy_board h gref)) = game_board h"
    by (simp add: copy_board_def copy_row_def g)
  show "game_turn (snd (copy_board h gref)) = game_turn h"
    by (simp add: copy_board_def copy_row_def g)
  show "fresh (snd (copy_board h gref)) = fresh h + 3"
    by (simp add: copy_board_def copy_row_def g)
qed

lemma empty_count_le_9: "empty_count b \<le> 9"
  using count_marked_empty_count[of b] by simp

lemma MinimaxBot_move_h_refines:
  assumes "allocated h" "valid_board (load h (game_board h))" "self \<in> set [''X'', ''O'']" "9 \<le> n"
  shows "MinimaxBot_move_h n self h
           = Some (MinimaxBot_move self (load h (game_board h)), snd (copy_board h (game_board h)))"
proof -
  let ?bref = "fst (copy_board h (game_board h))" and ?h0 = "snd (copy_board h (game_board h))"
  let ?b = "load h (game_board h)"
  note cb = copy_board_spec[OF assms(1)[unfolded allocated_def]]
  have d: "distinct (list3 ?bref)" by (simp add: cb(1))
  have l0: "load ?h0 ?bref = ?b" by (rule cb(2))
  have lg: "load ?h0 (game_board ?h0) = ?b" by (simp only: cb(5) cb(3))
  have v0: "valid_board (load ?h0 ?bref)" by (simp only: l0 assms(2))
  have rec: "minimax_h n self ?bref (opponent self) h' = Some (minimax self (load h' ?bref) (opponent self), h')"
    if "valid_board (load h' ?bref)" "empty_count (load h' ?bref) < n" for h'
    by (rule minimax_h_refines[OF d that(1) opponent_in that(2)])
  have n: "empty_count (load ?h0 ?bref) \<le> n"
    using empty_count_le_9[of "load ?h0 ?bref"] assms(4) by simp
  from search_loop_restores[where f = "\<lambda>b. minimax self b (opponent self)", OF rec d v0 assms(3) subset_refl n, of "[]"]
  have sl: "search_loop (minimax_h n self ?bref (opponent self)) ?bref self (get_empty_box_positions ?b) ([], ?h0)
            = Some (move_scores self ?b, ?h0)"
    by (simp add: l0 move_scores_def child_score_def)
  show ?thesis
    by (simp add: MinimaxBot_move_h_def split_beta Let_def lg sl MinimaxBot_move_def)
qed

lemma tie_board_move:
  "MinimaxBot_move ''X'' ((''X'', ''O'', ''X''), (''O'', ''X'', ''O''), (''7'', ''8'', ''9'')) = Some 7"
proof -
  have "MinimaxBot_move cX ((cX, cO, cX), (cO, cX, cO), (c7, c8, c9)) = Some 7"
    by (simp only: pick_rules cong: if_weak_cong option.case_cong_weak)
  then show ?thesis by (simp only: c_defs)
qed

text \<open>
  C9. In every store where the live game holds a validly represented board,
  \<^verbatim>\<open>MinimaxBot.move\<close> returns (with the recursion allowed its nine levels) the box the
  search on board values chooses, and leaves the game's board reference, its turn counter
  and every row object that existed before the call as they were. The store after the
  call is the store right after the private copy was made: the search has written to the
  three new rows only, and has undone every one of its writes.
\<close>

theorem MinimaxBot_move_leaves_game:
  assumes "allocated h" "valid_board (load h (game_board h))" "self \<in> set [''X'', ''O'']" "9 \<le> n"
  shows "\<exists>h'. MinimaxBot_move_h n self h = Some (MinimaxBot_move self (load h (game_board h)), h') \<and>
           game_board h' = game_board h \<and> game_turn h' = game_turn h \<and>
           load h' (game_board h') = load h (game_board h) \<and>
           (\<forall>r < fresh h. rows h' r = rows h r) \<and>
           h' = snd (copy_board h (game_board h))"
proof -
  note cb = copy_board_spec[OF assms(1)[unfolded allocated_def]]
  from MinimaxBot_move_h_refines[OF assms] cb(3,4,5,6) show ?thesis by simp
qed

theorem MinimaxBot_move_leaves_game_witness:
  "allocated \<lparr>rows = (\<lambda>r. if r = 0 then (''X'', ''O'', ''X'') else if r = 1 then (''O'', ''X'', ''O'')
                            else (''7'', ''8'', ''9'')),
              fresh = 3, game_board = (0, 1, 2), game_turn = 6\<rparr> \<and>
   load \<lparr>rows = (\<lambda>r. if r = 0 then (''X'', ''O'', ''X'') else if r = 1 then (''O'', ''X'', ''O'')
                       else (''7'', ''8'', ''9'')),
         fresh = 3, game_board = (0, 1, 2), game_turn = 6\<rparr> (0, 1, 2)
     = ((''X'', ''O'', ''X''), (''O'', ''X'', ''O''), (''7'', ''8'', ''9'')) \<and>
   (\<exists>h'. MinimaxBot_move_h 9 ''X''
            \<lparr>rows = (\<lambda>r. if r = 0 then (''X'', ''O'', ''X'') else if r = 1 then (''O'', ''X'', ''O'')
                            else (''7'', ''8'', ''9'')),
              fresh = 3, game_board = (0, 1, 2), game_turn = 6\<rparr> = Some (Some 7, h') \<and>
         game_board h' = (0, 1, 2) \<and> game_turn h' = 6 \<and>
         load h' (0, 1, 2) = ((''X'', ''O'', ''X''), (''O'', ''X'', ''O''), (''7'', ''8'', ''9'')) \<and>
         load h' (3, 4, 5) = ((''X'', ''O'', ''X''), (''O'', ''X'', ''O''), (''7'', ''8'', ''9'')))"
proof -
  let ?H = "\<lparr>rows = (\<lambda>r. if r = 0 then (''X'', ''O'', ''X'') else if r = 1 then (''O'', ''X'', ''O'')
                            else (''7'', ''8'', ''9'')),
              fresh = 3, game_board = (0, 1, 2), game_turn = 6\<rparr>"
  let ?B = "((''X'', ''O'', ''X''), (''O'', ''X'', ''O''), (''7'', ''8'', ''9''))"
  have a: "allocated ?H" by (simp add: allocated_def)
  have l: "load ?H (game_board ?H) = ?B" by (simp add: load_def)
  have v: "valid_board (load ?H (game_board ?H))" unfolding l by (simp add: valid_board_tuple)
  have c: "load (snd (copy_board ?H (game_board ?H))) (3, 4, 5) = ?B"
    by (simp add: copy_board_def copy_row_def load_def)
  from MinimaxBot_move_leaves_game[OF a v, of "''X''" 9] obtain h' where
    h': "MinimaxBot_move_h 9 ''X'' ?H = Some (MinimaxBot_move ''X'' (load ?H (game_board ?H)), h')"
      "game_board h' = game_board ?H" "game_turn h' = game_turn ?H"
      "load h' (game_board h') = load ?H (game_board ?H)" "h' = snd (copy_board ?H (game_board ?H))"
    by auto
  from h'(1) have "MinimaxBot_move_h 9 ''X'' ?H = Some (Some 7, h')"
    by (simp only: l tie_board_move)
  moreover from h'(2,3,4) l have "game_board h' = (0, 1, 2)" "game_turn h' = 6" "load h' (0, 1, 2) = ?B"
    by simp_all
  moreover from h'(5) c have "load h' (3, 4, 5) = ?B" by simp
  ultimately show ?thesis using a l by auto
qed

section \<open>The choice among equal scores\<close>

lemma box_of_inj:
  assumes "p \<in> set (get_empty_box_positions b)" "q \<in> set (get_empty_box_positions b)" "box_of p = box_of q"
  shows "p = q"
proof -
  obtain i j k l where pq: "p = (i, j)" "q = (k, l)" by (cases p, cases q) auto
  from assms(1,2) have "i < 3" "j < 3" "k < 3" "l < 3"
    using pos_cases[of i j b] pos_cases[of k l b] by (simp_all add: pq)
  with assms(3) show ?thesis
    using box_of_position(3,4)[of i j] box_of_position(3,4)[of k l] by (simp add: pq box_of_def)
qed

lemma MinimaxBot_move_h_twice:
  assumes "allocated h" "valid_board (load h (game_board h))" "self \<in> set [''X'', ''O'']" "9 \<le> n"
  shows "\<exists>h'. MinimaxBot_move_h n self h = Some (MinimaxBot_move self (load h (game_board h)), h') \<and>
           (\<exists>h''. MinimaxBot_move_h n self h' = Some (MinimaxBot_move self (load h (game_board h)), h''))"
proof -
  let ?h' = "snd (copy_board h (game_board h))"
  note cb = copy_board_spec[OF assms(1)[unfolded allocated_def]]
  have first: "MinimaxBot_move_h n self h = Some (MinimaxBot_move self (load h (game_board h)), ?h')"
    by (rule MinimaxBot_move_h_refines[OF assms])
  have l': "load ?h' (game_board ?h') = load h (game_board h)"
    by (simp only: cb(5) cb(3))
  from assms(1) have a': "allocated ?h'"
    unfolding allocated_def cb(5) cb(7) by (auto simp: list_all_iff)
  from assms(2) have v': "valid_board (load ?h' (game_board ?h'))" by (simp only: l')
  from MinimaxBot_move_h_refines[OF a' v' assms(3,4)]
  have "MinimaxBot_move_h n self ?h'
          = Some (MinimaxBot_move self (load h (game_board h)), snd (copy_board ?h' (game_board ?h')))"
    by (simp only: l')
  with first show ?thesis by blast
qed

text \<open>
  C7. On every validly represented board with at least one free cell, for a bot whose
  symbol is \<^verbatim>\<open>'X'\<close> or \<^verbatim>\<open>'O'\<close>, \<^verbatim>\<open>MinimaxBot.move\<close> returns the box of a free cell
  whose score is maximal, and among the cells that attain the maximal score the one with
  the lowest box number, which is the first of them in the row-major scan. On the store,
  whatever else it holds, the call returns that box, and a second call on the store the
  first one leaves returns it again.
\<close>

theorem MinimaxBot_move_first_max:
  assumes "valid_board b" "self \<in> set [''X'', ''O'']" "get_empty_box_positions b \<noteq> []"
  shows "\<exists>i j. (i, j) \<in> set (get_empty_box_positions b) \<and>
           MinimaxBot_move self b = Some (get_box_number i j) \<and>
           (\<forall>(k, l) \<in> set (get_empty_box_positions b).
              child_score self b k l \<le> child_score self b i j \<and>
              (child_score self b k l = child_score self b i j \<longrightarrow> get_box_number i j \<le> get_box_number k l)) \<and>
           find (\<lambda>(k, l). \<forall>(k', l') \<in> set (get_empty_box_positions b).
                             child_score self b k' l' \<le> child_score self b k l)
                (get_empty_box_positions b) = Some (i, j) \<and>
           (\<forall>h n. allocated h \<and> load h (game_board h) = b \<and> 9 \<le> n \<longrightarrow>
              (\<exists>h'. MinimaxBot_move_h n self h = Some (Some (get_box_number i j), h') \<and>
                    (\<exists>h''. MinimaxBot_move_h n self h' = Some (Some (get_box_number i j), h''))))"
proof -
  let ?ps = "get_empty_box_positions b"
  let ?top = "\<lambda>(k, l). \<forall>(k', l') \<in> set ?ps. child_score self b k' l' \<le> child_score self b k l"
  from MinimaxBot_move_spec[OF assms(3), of self] obtain i j where
    ij: "(i, j) \<in> set ?ps" "MinimaxBot_move self b = Some (get_box_number i j)"
      and mx: "\<forall>(k, l) \<in> set ?ps. child_score self b k l \<le> child_score self b i j \<and>
                 (child_score self b k l = child_score self b i j \<longrightarrow> get_box_number i j \<le> get_box_number k l)"
    by blast
  from mx have top: "?top (i, j)" by auto
  with ij(1) have "find ?top ?ps \<noteq> None" by (auto simp: find_None_iff)
  then obtain p where p: "find ?top ?ps = Some p" by auto
  from find_least[OF positions_sorted p] have pt: "?top p" "p \<in> set ?ps"
    and least: "\<forall>q \<in> set ?ps. ?top q \<longrightarrow> box_of p \<le> box_of q"
    by blast+
  from least ij(1) top have le1: "box_of p \<le> box_of (i, j)" by blast
  obtain k l where kl: "p = (k, l)" by (cases p) auto
  from pt(1) ij(1) have "child_score self b i j \<le> child_score self b k l" by (auto simp: kl)
  moreover from mx pt(2) have "child_score self b k l \<le> child_score self b i j" by (auto simp: kl)
  ultimately have "child_score self b k l = child_score self b i j" by simp
  with mx pt(2) have "box_of (i, j) \<le> box_of p" by (auto simp: kl box_of_def)
  with le1 have "box_of p = box_of (i, j)" by simp
  from box_of_inj[OF pt(2) ij(1) this] p have first: "find ?top ?ps = Some (i, j)" by simp
  have store: "\<exists>h'. MinimaxBot_move_h n self h = Some (Some (get_box_number i j), h') \<and>
                 (\<exists>h''. MinimaxBot_move_h n self h' = Some (Some (get_box_number i j), h''))"
    if "allocated h" "load h (game_board h) = b" "9 \<le> n" for h n
  proof -
    from assms(1) that(2) have "valid_board (load h (game_board h))" by simp
    from MinimaxBot_move_h_twice[OF that(1) this assms(2) that(3)] show ?thesis
      by (simp only: that(2) ij(2))
  qed
  from ij mx first store show ?thesis by blast
qed

lemma uncapped_score: "\<not> capped self b symbol \<Longrightarrow> minimax self b symbol = 10"
  using minimax_range[of self b symbol] by (auto simp: capped_def)

lemma tie_board_scores:
  "child_score cX ((cX, cO, cX), (cO, cX, cO), (c7, c8, c9)) 2 0 = 10"
  "child_score cX ((cX, cO, cX), (cO, cX, cO), (c7, c8, c9)) 2 1 = 10"
  "child_score cX ((cX, cO, cX), (cO, cX, cO), (c7, c8, c9)) 2 2 = 10"
  unfolding child_score_def
  by (rule uncapped_score, simp only: search_rules cong: if_weak_cong option.case_cong_weak)+

theorem MinimaxBot_move_first_max_witness:
  "valid_board ((''X'', ''O'', ''X''), (''O'', ''X'', ''O''), (''7'', ''8'', ''9'')) \<and>
   get_empty_box_positions ((''X'', ''O'', ''X''), (''O'', ''X'', ''O''), (''7'', ''8'', ''9''))
     = [(2, 0), (2, 1), (2, 2)] \<and>
   child_score ''X'' ((''X'', ''O'', ''X''), (''O'', ''X'', ''O''), (''7'', ''8'', ''9'')) 2 0 = 10 \<and>
   child_score ''X'' ((''X'', ''O'', ''X''), (''O'', ''X'', ''O''), (''7'', ''8'', ''9'')) 2 1 = 10 \<and>
   child_score ''X'' ((''X'', ''O'', ''X''), (''O'', ''X'', ''O''), (''7'', ''8'', ''9'')) 2 2 = 10 \<and>
   MinimaxBot_move ''X'' ((''X'', ''O'', ''X''), (''O'', ''X'', ''O''), (''7'', ''8'', ''9'')) = Some 7 \<and>
   allocated \<lparr>rows = (\<lambda>r. if r = 0 then (''X'', ''O'', ''X'') else if r = 1 then (''O'', ''X'', ''O'')
                            else (''7'', ''8'', ''9'')),
              fresh = 3, game_board = (0, 1, 2), game_turn = 6\<rparr> \<and>
   (\<exists>h'. MinimaxBot_move_h 9 ''X''
            \<lparr>rows = (\<lambda>r. if r = 0 then (''X'', ''O'', ''X'') else if r = 1 then (''O'', ''X'', ''O'')
                            else (''7'', ''8'', ''9'')),
              fresh = 3, game_board = (0, 1, 2), game_turn = 6\<rparr> = Some (Some 7, h') \<and>
         (\<exists>h''. MinimaxBot_move_h 9 ''X'' h' = Some (Some 7, h'')))"
proof -
  let ?B = "((''X'', ''O'', ''X''), (''O'', ''X'', ''O''), (''7'', ''8'', ''9''))"
  let ?H = "\<lparr>rows = (\<lambda>r. if r = 0 then (''X'', ''O'', ''X'') else if r = 1 then (''O'', ''X'', ''O'')
                            else (''7'', ''8'', ''9'')),
              fresh = 3, game_board = (0, 1, 2), game_turn = 6\<rparr>"
  have v: "valid_board ?B" by (simp add: valid_board_tuple)
  have x: "''X'' \<in> set [''X'', ''O'']" by simp
  have ps: "get_empty_box_positions ?B = [(2, 0), (2, 1), (2, 2)]"
    by (simp add: get_empty_box_positions_def cell_def)
  then have ne: "get_empty_box_positions ?B \<noteq> []" by simp
  have a: "allocated ?H" by (simp add: allocated_def)
  have l: "load ?H (game_board ?H) = ?B" by (simp add: load_def)
  note sc = tie_board_scores[unfolded c_defs]
  from MinimaxBot_move_first_max[OF v x ne] obtain i j where
    ij: "(i, j) \<in> set (get_empty_box_positions ?B)" "MinimaxBot_move ''X'' ?B = Some (get_box_number i j)"
    and mx: "\<forall>(k, l) \<in> set (get_empty_box_positions ?B).
               child_score ''X'' ?B k l = child_score ''X'' ?B i j \<longrightarrow> get_box_number i j \<le> get_box_number k l"
    and st: "\<forall>h n. allocated h \<and> load h (game_board h) = ?B \<and> 9 \<le> n \<longrightarrow>
              (\<exists>h'. MinimaxBot_move_h n ''X'' h = Some (Some (get_box_number i j), h') \<and>
                    (\<exists>h''. MinimaxBot_move_h n ''X'' h' = Some (Some (get_box_number i j), h'')))"
    by blast
  from ij(1) have mem: "(i, j) \<in> set [(2, 0), (2, 1), (2, 2)]" by (simp only: ps)
  with sc have "child_score ''X'' ?B i j = 10" by auto
  with mx sc(1) ps have "get_box_number i j \<le> get_box_number 2 0" by simp
  with mem have seven: "get_box_number i j = 7" by (auto simp: get_box_number_def)
  from st a l have "\<exists>h'. MinimaxBot_move_h 9 ''X'' ?H = Some (Some (get_box_number i j), h') \<and>
                     (\<exists>h''. MinimaxBot_move_h 9 ''X'' h' = Some (Some (get_box_number i j), h''))"
    by simp
  then have "\<exists>h'. MinimaxBot_move_h 9 ''X'' ?H = Some (Some 7, h') \<and>
                     (\<exists>h''. MinimaxBot_move_h 9 ''X'' h' = Some (Some 7, h''))"
    by (simp only: seven)
  with v ps sc ij(2) seven a show ?thesis by simp
qed

end
